theory Spec2Isabelle
  imports Main "HOL-Library.Word" "HOL-Library.AList" "HOL-Library.Multiset"
begin

section \<open>Data model of main.go\<close>

text \<open>
  The structs of the program. \<^verbatim>\<open>Application\<close> is only ever decoded and stored; its two
  \<^verbatim>\<open>float32\<close> fields are kept as their 32-bit patterns, no arithmetic is done on them.
  The nested anonymous structs \<^verbatim>\<open>Workers\<close>, \<^verbatim>\<open>Workers.Type\<close> and \<^verbatim>\<open>MuleVersion\<close> are
  flattened into prefixed fields.
\<close>

type_synonym float32 = "32 word"

record application =
  Domain :: string
  FullDomain :: string
  Status :: string
  FileName :: string
  Workers_Type_CPU :: string
  Workers_Amount :: int
  Workers_RemainingOrgWorkers :: float32
  Workers_TotalOrgWorkers :: float32
  LastUpdateTime :: int
  MuleVersion_Version :: string

text \<open>
  \<^verbatim>\<open>Environment\<close>: the fields \<^verbatim>\<open>ID\<close> and \<^verbatim>\<open>Name\<close> carry the prefix \<open>env_\<close> because
  \<^verbatim>\<open>Organization\<close> has fields of the same names. The slices of pointers
  \<^verbatim>\<open>[]*Application\<close> and \<^verbatim>\<open>[]*Environment\<close> are lists of values: every pointee is made by
  one \<^verbatim>\<open>json.Unmarshal\<close> call and is referenced from that one slice only.
\<close>

record environment =
  env_ID :: string
  env_Name :: string
  Applications :: "application list"

record organization =
  Name :: string
  ID :: string
  SubOrganizationIds :: "string list"
  Environments :: "environment list"

text \<open>
  The value a traversal through the \<^verbatim>\<open>Children\<close> pointers of a \<^verbatim>\<open>*Node\<close> sees: the node's
  \<^verbatim>\<open>BusinessOrganization\<close> and, in order, the trees below its children.
\<close>

datatype tree = Tree organization "tree list"

fun orgs :: "tree \<Rightarrow> organization list" where
  "orgs (Tree org cs) = org # concat (map orgs cs)"

section \<open>The remote services, the file system and the command line\<close>

text \<open>
  Both remote calls send the credentials with the request. \<open>GetOrganization u p id\<close> is the
  GET of \<^verbatim>\<open>getOrganizationMetrics\<close>, \<open>GetApplications u p env\<close> the one of
  \<^verbatim>\<open>getDeployedArtifacts\<close> (the environment id travels in a header). \<open>Failed err\<close>: one of
  \<^verbatim>\<open>http.NewRequest\<close>, \<^verbatim>\<open>client.Do\<close> and \<^verbatim>\<open>ioutil.ReadAll\<close> returned the error \<open>err\<close>;
  \<open>Response status body\<close>: the call went through.
\<close>

datatype request =
    GetOrganization string string string
  | GetApplications string string string

datatype response = Failed string | Response nat string

text \<open>What \<^verbatim>\<open>writeMetricsFile\<close> is given as \<^verbatim>\<open>data\<close>: the tree below a node, or a slice.\<close>

datatype document = TreeDoc tree | ListDoc "organization list"

text \<open>
  Everything outside the program. \<^verbatim>\<open>json.Unmarshal(data, &v)\<close> has two results: what it
  leaves in \<open>v\<close> and whether the error it returns is nil (\<open>True\<close>); it is given the body and
  the value \<open>v\<close> holds before the call. \<open>writeFile name data\<close> is the marshalling, creation
  and writing done by \<^verbatim>\<open>writeMetricsFile\<close>: the error, or the byte count. \<open>rangeOrder\<close>
  fixes the order in which \<^verbatim>\<open>range\<close> visits the entries of a Go map, which the language
  leaves open.
\<close>

record world =
  http :: "request \<Rightarrow> response"
  unmarshalOrganization :: "string \<Rightarrow> organization \<Rightarrow> organization \<times> bool"
  unmarshalApplications :: "string \<Rightarrow> application list \<Rightarrow> application list \<times> bool"
  writeFile :: "string \<Rightarrow> document \<Rightarrow> string + nat"
  rangeOrder :: "nat list"

text \<open>The flags; a flag that is not given holds its default, the empty string.\<close>

record config =
  rootID :: string
  username :: string
  password :: string
  outdir :: string

datatype message =
    MissingFlags
  | NonOKStatus nat
  | Wrote nat
  | OrgValue organization
  | ErrorText string

text \<open>
  A function that may call \<^verbatim>\<open>os.Exit(1)\<close>: \<open>Exit1 out err\<close> has printed \<open>out\<close> to standard
  output and \<open>err\<close> to standard error and ended the process with status 1; \<open>Return out v\<close>
  has printed \<open>out\<close> and returns \<open>v\<close>.
\<close>

datatype 'a outcome = Exit1 "message list" "message list" | Return "message list" 'a

text \<open>\<^verbatim>\<open>errorCheck\<close> after each fallible call; a status other than 200 is printed only.\<close>

definition getOrganizationMetrics :: "world \<Rightarrow> config \<Rightarrow> string \<Rightarrow> string outcome" where
  "getOrganizationMetrics w c orgID =
     (case http w (GetOrganization (username c) (password c) orgID) of
        Failed err \<Rightarrow> Exit1 [] [ErrorText err]
      | Response status body \<Rightarrow>
          Return (if status \<noteq> 200 then [NonOKStatus status] else []) body)"

text \<open>Here a status other than 200 is printed and ends the process.\<close>

definition getDeployedArtifacts :: "world \<Rightarrow> config \<Rightarrow> string \<Rightarrow> string outcome" where
  "getDeployedArtifacts w c environment =
     (case http w (GetApplications (username c) (password c) environment) of
        Failed err \<Rightarrow> Exit1 [] [ErrorText err]
      | Response status body \<Rightarrow>
          if status \<noteq> 200 then Exit1 [NonOKStatus status] [] else Return [] body)"

section \<open>The heap and the goroutines\<close>

text \<open>
  A \<^verbatim>\<open>Node\<close> lives at an address, its index in the heap; \<^verbatim>\<open>Children\<close> holds addresses.
  \<open>mux\<close> is \<open>True\<close> while the mutex is held.
\<close>

record node =
  mux :: bool
  BusinessOrganization :: organization
  Children :: "nat list"

definition zero_organization :: organization where
  "zero_organization = \<lparr>Name = [], ID = [], SubOrganizationIds = [], Environments = []\<rparr>"

text \<open>
  Where a call of \<^verbatim>\<open>buildOrgTree\<close> stands. \<open>BLoop vs\<close>: at the head of the loop, \<open>vs\<close> the
  identifiers still to visit; the next four carry the address of the node just made and
  stand before \<^verbatim>\<open>Lock\<close>, before the append, before \<^verbatim>\<open>Unlock\<close>, before \<^verbatim>\<open>g.Add(1)\<close> and
  before the \<^verbatim>\<open>go\<close> statement. The deferred \<^verbatim>\<open>g.Done()\<close> runs when the loop is over.
\<close>

datatype bpc =
    BLoop "string list"
  | BLock nat "string list"
  | BAppend nat "string list"
  | BUnlock nat "string list"
  | BAdd nat "string list"
  | BGo nat "string list"
  | BReturned

text \<open>
  Where a call of \<^verbatim>\<open>generateApplications\<close> stands: \<open>GEnv i\<close> before the fetch for the
  \<open>i\<close>-th environment, \<open>GAssign i apps\<close> before the assignment to its \<^verbatim>\<open>Applications\<close>,
  \<open>GKids cs\<close> at the head of the loop over the children, \<open>GGo c cs\<close> between \<^verbatim>\<open>g.Add(1)\<close>
  and the \<^verbatim>\<open>go\<close> statement.
\<close>

datatype gpc =
    GEnv nat
  | GAssign nat "application list"
  | GKids "nat list"
  | GGo nat "nat list"
  | GReturned

datatype frame =
    Idle
  | BuildOrgTree nat bpc
  | GenerateApplications nat gpc

text \<open>
  Where \<^verbatim>\<open>main\<close> stands (\<^verbatim>\<open>InitTree\<close> is inlined). The calls \<^verbatim>\<open>node.buildOrgTree(g)\<close> in
  \<^verbatim>\<open>InitTree\<close> and \<^verbatim>\<open>generateApplications(head, g)\<close> in \<^verbatim>\<open>main\<close> are ordinary calls: they
  run on the main goroutine, in frame 0.
\<close>

datatype mainpc =
    MFlags
  | MInitTree
  | MTreeAdd nat
  | MTreeCall nat
  | MTreeBuild nat
  | MTreeWait nat
  | MGenAdd nat
  | MGenCall nat
  | MGen nat
  | MGenWait nat
  | MWriteTree nat
  | MFlatten nat

text \<open>
  \<open>g_tree\<close> is the counter of the WaitGroup of \<^verbatim>\<open>InitTree\<close>, \<open>g_main\<close> the one of
  \<^verbatim>\<open>main\<close>. \<open>frames ! 0\<close> is the call running on the main goroutine, \<open>frames ! (i + 1)\<close>
  the goroutine started by the \<open>i\<close>-th \<^verbatim>\<open>go\<close> statement. \<open>exited\<close> is the exit status once
  the process has ended. \<open>requests\<close> and \<open>written\<close> record the remote calls made and the
  files written.
\<close>

record state =
  heap :: "node list"
  g_tree :: int
  g_main :: int
  mainpc :: mainpc
  frames :: "frame list"
  exited :: "nat option"
  stdout :: "message list"
  stderr :: "message list"
  requests :: "request list"
  written :: "(string \<times> document) list"

definition init :: state where
  "init = \<lparr>heap = [], g_tree = 0, g_main = 0, mainpc = MFlags, frames = [Idle],
           exited = None, stdout = [], stderr = [], requests = [], written = []\<rparr>"

definition print :: "message list \<Rightarrow> state \<Rightarrow> state" where
  "print out s = s\<lparr>stdout := stdout s @ out\<rparr>"

definition exit_with :: "nat \<Rightarrow> message list \<Rightarrow> message list \<Rightarrow> state \<Rightarrow> state" where
  "exit_with code out err s =
     s\<lparr>stdout := stdout s @ out, stderr := stderr s @ err, exited := Some code\<rparr>"

definition sent :: "request \<Rightarrow> state \<Rightarrow> state" where
  "sent r s = s\<lparr>requests := requests s @ [r]\<rparr>"

definition new_node :: "organization \<Rightarrow> node" where
  "new_node organization =
     \<lparr>mux = False, BusinessOrganization = organization, Children = []\<rparr>"

definition alloc :: "node \<Rightarrow> state \<Rightarrow> state" where
  "alloc n s = s\<lparr>heap := heap s @ [n]\<rparr>"

definition modify :: "nat \<Rightarrow> (node \<Rightarrow> node) \<Rightarrow> state \<Rightarrow> state" where
  "modify p f s = s\<lparr>heap := (heap s)[p := f (heap s ! p)]\<rparr>"

text \<open>\<^verbatim>\<open>g.Done()\<close> panics when the counter would turn negative; a panic ends the process
  with status 2.\<close>

definition done_tree :: "state \<Rightarrow> state" where
  "done_tree s = (if g_tree s - 1 < 0 then exit_with 2 [] [ErrorText ''sync: negative WaitGroup counter''] s
                  else s\<lparr>g_tree := g_tree s - 1\<rparr>)"

definition done_main :: "state \<Rightarrow> state" where
  "done_main s = (if g_main s - 1 < 0 then exit_with 2 [] [ErrorText ''sync: negative WaitGroup counter''] s
                  else s\<lparr>g_main := g_main s - 1\<rparr>)"

definition set_Applications :: "nat \<Rightarrow> application list \<Rightarrow> node \<Rightarrow> node" where
  "set_Applications i apps n =
     n\<lparr>BusinessOrganization := (BusinessOrganization n)
          \<lparr>Environments := (Environments (BusinessOrganization n))
             [i := (Environments (BusinessOrganization n) ! i)\<lparr>Applications := apps\<rparr>]\<rparr>\<rparr>"

text \<open>
  One step of a call, on the node \<open>p\<close> it was called for: the frame afterwards and the
  state afterwards. \<open>None\<close>: the call cannot move (it has returned, or it waits for the
  mutex). \<^verbatim>\<open>range\<close> evaluates its operand once, when the loop starts.
\<close>

fun build_step :: "world \<Rightarrow> config \<Rightarrow> nat \<Rightarrow> bpc \<Rightarrow> state \<Rightarrow> (bpc \<times> state) option" where
  "build_step w c p (BLoop []) s = Some (BReturned, done_tree s)"
| "build_step w c p (BLoop (v # vs)) s =
     (let s1 = sent (GetOrganization (username c) (password c) v) s in
      case getOrganizationMetrics w c v of
        Exit1 out err \<Rightarrow> Some (BLoop (v # vs), exit_with 1 out err s1)
      | Return out byteArray \<Rightarrow>
          Some (BLock (length (heap s)) vs,
                alloc (new_node (fst (unmarshalOrganization w byteArray zero_organization)))
                  (print out s1)))"
| "build_step w c p (BLock n vs) s =
     (if mux (heap s ! p) then None
      else Some (BAppend n vs, modify p (\<lambda>x. x\<lparr>mux := True\<rparr>) s))"
| "build_step w c p (BAppend n vs) s =
     Some (BUnlock n vs, modify p (\<lambda>x. x\<lparr>Children := Children x @ [n]\<rparr>) s)"
| "build_step w c p (BUnlock n vs) s =
     Some (BAdd n vs, modify p (\<lambda>x. x\<lparr>mux := False\<rparr>) s)"
| "build_step w c p (BAdd n vs) s = Some (BGo n vs, s\<lparr>g_tree := g_tree s + 1\<rparr>)"
| "build_step w c p (BGo n vs) s =
     Some (BLoop vs,
           s\<lparr>frames := frames s @
               [BuildOrgTree n (BLoop (SubOrganizationIds (BusinessOrganization (heap s ! n))))]\<rparr>)"
| "build_step w c p BReturned s = None"

fun gen_step :: "world \<Rightarrow> config \<Rightarrow> nat \<Rightarrow> gpc \<Rightarrow> state \<Rightarrow> (gpc \<times> state) option" where
  "gen_step w c p (GEnv i) s =
     (let envs = Environments (BusinessOrganization (heap s ! p)) in
      if i < length envs then
        (let s1 = sent (GetApplications (username c) (password c) (env_ID (envs ! i))) s in
         case getDeployedArtifacts w c (env_ID (envs ! i)) of
           Exit1 out err \<Rightarrow> Some (GEnv i, exit_with 1 out err s1)
         | Return out byteArray \<Rightarrow>
             Some (GAssign i (fst (unmarshalApplications w byteArray [])), print out s1))
      else Some (GKids (Children (heap s ! p)), s))"
| "gen_step w c p (GAssign i apps) s =
     Some (GEnv (Suc i), modify p (set_Applications i apps) s)"
| "gen_step w c p (GKids []) s = Some (GReturned, done_main s)"
| "gen_step w c p (GKids (k # ks)) s = Some (GGo k ks, s\<lparr>g_main := g_main s + 1\<rparr>)"
| "gen_step w c p (GGo k ks) s =
     Some (GKids ks, s\<lparr>frames := frames s @ [GenerateApplications k (GEnv 0)]\<rparr>)"
| "gen_step w c p GReturned s = None"

fun frame_step :: "world \<Rightarrow> config \<Rightarrow> frame \<Rightarrow> state \<Rightarrow> (frame \<times> state) option" where
  "frame_step w c Idle s = None"
| "frame_step w c (BuildOrgTree p pc) s =
     (if p < length (heap s)
      then map_option (\<lambda>(pc', s'). (BuildOrgTree p pc', s')) (build_step w c p pc s)
      else None)"
| "frame_step w c (GenerateApplications p pc) s =
     (if p < length (heap s)
      then map_option (\<lambda>(pc', s'). (GenerateApplications p pc', s')) (gen_step w c p pc s)
      else None)"

text \<open>The goroutine whose call is frame \<open>i\<close> takes a step.\<close>

definition frame_run :: "world \<Rightarrow> config \<Rightarrow> nat \<Rightarrow> state \<Rightarrow> state option" where
  "frame_run w c i s =
     (if i < length (frames s)
      then (case frame_step w c (frames s ! i) s of
              None \<Rightarrow> None
            | Some (f', s') \<Rightarrow> Some (s'\<lparr>frames := (frames s')[i := f']\<rparr>))
      else None)"

section \<open>Reading the tree back, and the order of a range over a map\<close>

text \<open>
  The tree below address \<open>a\<close>, followed through at most \<open>n\<close> levels of \<^verbatim>\<open>Children\<close>
  pointers; \<open>None\<close> when the structure is deeper than that.
\<close>

fun tree_of :: "nat \<Rightarrow> node list \<Rightarrow> nat \<Rightarrow> tree option" where
  "tree_of 0 h a = None"
| "tree_of (Suc n) h a =
     (if a < length h
      then map_option (Tree (BusinessOrganization (h ! a)))
             (those (map (tree_of n h) (Children (h ! a))))
      else None)"

text \<open>Taking the entries in the order the numbers \<open>ks\<close> pick them; every order can be had.\<close>

fun range_order :: "nat list \<Rightarrow> 'a list \<Rightarrow> 'a list" where
  "range_order ks [] = []"
| "range_order [] (x # xs) = x # xs"
| "range_order (k # ks) (x # xs) =
     ((x # xs) ! (k mod Suc (length xs))) #
     range_order ks (take (k mod Suc (length xs)) (x # xs) @
                     drop (Suc (k mod Suc (length xs))) (x # xs))"

section \<open>flattenTree\<close>

text \<open>
  \<^verbatim>\<open>orgMap[p.BusinessOrganization.Name] = p.BusinessOrganization\<close>, then the same for every
  child in order. The Go map is an association list with one pair per key;
  \<^const>\<open>AList.update\<close> overwrites the value of a key that is present.
\<close>

type_synonym orgMap = "(string \<times> organization) list"

fun flattenTree :: "tree \<Rightarrow> orgMap \<Rightarrow> orgMap" where
  "flattenTree (Tree org cs) orgMap =
     fold flattenTree cs (AList.update (Name org) org orgMap)"

text \<open>Storing a list of organizations one after the other, each under its name.\<close>

definition store_all :: "organization list \<Rightarrow> orgMap \<Rightarrow> orgMap" where
  "store_all os m = fold (\<lambda>org. AList.update (Name org) org) os m"

section \<open>main\<close>

text \<open>
  One step of the main goroutine when it is not inside a call. \<^verbatim>\<open>g.Wait()\<close> can only be
  passed when the counter is zero. The serializer and \<^verbatim>\<open>flattenTree\<close> read the tree below
  \<open>head\<close>; a heap of \<open>n\<close> nodes without a cycle is at most \<open>n\<close> levels deep.
\<close>

definition main_step :: "world \<Rightarrow> config \<Rightarrow> state \<Rightarrow> state option" where
  "main_step w c s =
     (case mainpc s of
        MFlags \<Rightarrow>
          Some (if rootID c = [] \<or> username c = [] \<or> password c = []
                then exit_with 1 [MissingFlags] [] s
                else s\<lparr>mainpc := MInitTree\<rparr>)
      | MInitTree \<Rightarrow>
          (let s1 = sent (GetOrganization (username c) (password c) (rootID c)) s in
           case getOrganizationMetrics w c (rootID c) of
             Exit1 out err \<Rightarrow> Some (exit_with 1 out err s1)
           | Return out byteArray \<Rightarrow>
               Some ((alloc (new_node (fst (unmarshalOrganization w byteArray zero_organization)))
                        (print out s1))
                     \<lparr>mainpc := MTreeAdd (length (heap s))\<rparr>))
      | MTreeAdd node \<Rightarrow> Some (s\<lparr>g_tree := g_tree s + 1, mainpc := MTreeCall node\<rparr>)
      | MTreeCall node \<Rightarrow>
          Some (s\<lparr>frames := (frames s)
                     [0 := BuildOrgTree node
                        (BLoop (SubOrganizationIds (BusinessOrganization (heap s ! node))))],
                  mainpc := MTreeBuild node\<rparr>)
      | MTreeBuild node \<Rightarrow> Some (s\<lparr>mainpc := MTreeWait node\<rparr>)
      | MTreeWait node \<Rightarrow> (if g_tree s = 0 then Some (s\<lparr>mainpc := MGenAdd node\<rparr>) else None)
      | MGenAdd head \<Rightarrow> Some (s\<lparr>g_main := g_main s + 1, mainpc := MGenCall head\<rparr>)
      | MGenCall head \<Rightarrow>
          Some (s\<lparr>frames := (frames s)[0 := GenerateApplications head (GEnv 0)],
                  mainpc := MGen head\<rparr>)
      | MGen head \<Rightarrow> Some (s\<lparr>mainpc := MGenWait head\<rparr>)
      | MGenWait head \<Rightarrow> (if g_main s = 0 then Some (s\<lparr>mainpc := MWriteTree head\<rparr>) else None)
      | MWriteTree head \<Rightarrow>
          (case tree_of (length (heap s)) (heap s) head of
             None \<Rightarrow> None
           | Some t \<Rightarrow>
               (case writeFile w (outdir c @ ''/metrics.json'') (TreeDoc t) of
                  Inl err \<Rightarrow> Some (exit_with 1 [] [ErrorText err] s)
                | Inr bytes \<Rightarrow>
                    Some (s\<lparr>written := written s @ [(outdir c @ ''/metrics.json'', TreeDoc t)],
                            stdout := stdout s @ [Wrote bytes],
                            mainpc := MFlatten head\<rparr>)))
      | MFlatten head \<Rightarrow>
          (case tree_of (length (heap s)) (heap s) head of
             None \<Rightarrow> None
           | Some t \<Rightarrow>
               (let values = map snd (range_order (rangeOrder w) (flattenTree t []));
                    s1 = print (map OrgValue values) s in
                case writeFile w (outdir c @ ''/metrics_flat.json'') (ListDoc values) of
                  Inl err \<Rightarrow> Some (exit_with 1 [] [ErrorText err] s1)
                | Inr bytes \<Rightarrow>
                    Some (exit_with 0 [Wrote bytes] []
                            (s1\<lparr>written := written s1 @
                                   [(outdir c @ ''/metrics_flat.json'', ListDoc values)]\<rparr>)))))"

text \<open>The main goroutine is inside a call while that call has not returned.\<close>

definition in_call :: "state \<Rightarrow> bool" where
  "in_call s =
     (case mainpc s of
        MTreeBuild node \<Rightarrow> frames s ! 0 \<noteq> BuildOrgTree node BReturned
      | MGen head \<Rightarrow> frames s ! 0 \<noteq> GenerateApplications head GReturned
      | _ \<Rightarrow> False)"

text \<open>
  Goroutine \<open>i\<close> takes a step; goroutine 0 is the main one. Nothing moves once the process
  has exited. \<open>None\<close>: that goroutine cannot move now.
\<close>

definition step :: "world \<Rightarrow> config \<Rightarrow> nat \<Rightarrow> state \<Rightarrow> state option" where
  "step w c i s =
     (if exited s \<noteq> None then None
      else if i = 0 \<and> \<not> in_call s then main_step w c s
      else frame_run w c i s)"

text \<open>A schedule names the goroutine that moves next, step after step.\<close>

fun run :: "world \<Rightarrow> config \<Rightarrow> nat list \<Rightarrow> state \<Rightarrow> state option" where
  "run w c [] s = Some s"
| "run w c (i # sched) s =
     (case step w c i s of None \<Rightarrow> None | Some s' \<Rightarrow> run w c sched s')"

section \<open>Invariants of the build\<close>

text \<open>
  \<open>reg\<close> is the number of registrations of the wait group a call still answers for: its
  own, released by the deferred \<^verbatim>\<open>Done\<close>, and one more between \<^verbatim>\<open>g.Add(1)\<close> and the
  \<^verbatim>\<open>go\<close> statement that hands it to the child. \<open>counter_inv\<close> says that the counter is
  the sum of these. \<open>tree_inv\<close> says that every address is owned by exactly one call (the
  one that runs on it, or the one that made it and has not started it yet), that the children
  of a node are the decoded answers for a prefix of its identifiers, and that a call's
  position in its loop is the length of its node's child list.
\<close>

fun reg :: "frame \<Rightarrow> nat" where
  "reg (BuildOrgTree p BReturned) = 0"
| "reg (BuildOrgTree p (BGo n vs)) = 2"
| "reg (BuildOrgTree p pc) = 1"
| "reg f = 0"

fun main_reg :: "mainpc \<Rightarrow> nat" where
  "main_reg (MTreeCall node) = 1"
| "main_reg pc = 0"

fun before_call :: "mainpc \<Rightarrow> bool" where
  "before_call MFlags = True"
| "before_call MInitTree = True"
| "before_call (MTreeAdd node) = True"
| "before_call (MTreeCall node) = True"
| "before_call pc = False"

fun in_build :: "mainpc \<Rightarrow> bool" where
  "in_build (MTreeBuild node) = True"
| "in_build pc = False"

definition registered :: "state \<Rightarrow> nat" where
  "registered s = sum_list (map reg (frames s)) + main_reg (mainpc s)"

definition counter_inv :: "state \<Rightarrow> bool" where
  "counter_inv s =
     (g_tree s = int (registered s) \<and> frames s \<noteq> [] \<and>
      (before_call (mainpc s) \<longrightarrow> frames s = [Idle]) \<and>
      (\<not> before_call (mainpc s) \<and> \<not> in_build (mainpc s) \<longrightarrow> reg (frames s ! 0) = 0))"

abbreviation org_at :: "node list \<Rightarrow> nat \<Rightarrow> organization" where
  "org_at h a \<equiv> BusinessOrganization (h ! a)"

abbreviation ids_at :: "node list \<Rightarrow> nat \<Rightarrow> string list" where
  "ids_at h a \<equiv> SubOrganizationIds (BusinessOrganization (h ! a))"

definition resolves :: "world \<Rightarrow> config \<Rightarrow> string \<Rightarrow> organization \<Rightarrow> bool" where
  "resolves w c v org =
     (case getOrganizationMetrics w c v of
        Exit1 out err \<Rightarrow> False
      | Return out byteArray \<Rightarrow> org = fst (unmarshalOrganization w byteArray zero_organization))"

fun pend :: "bpc \<Rightarrow> nat option" where
  "pend (BLock n vs) = Some n"
| "pend (BAppend n vs) = Some n"
| "pend (BUnlock n vs) = Some n"
| "pend (BAdd n vs) = Some n"
| "pend (BGo n vs) = Some n"
| "pend pc = None"

fun rest :: "bpc \<Rightarrow> string list" where
  "rest (BLoop vs) = vs"
| "rest (BLock n vs) = vs"
| "rest (BAppend n vs) = vs"
| "rest (BUnlock n vs) = vs"
| "rest (BAdd n vs) = vs"
| "rest (BGo n vs) = vs"
| "rest BReturned = []"

fun attached :: "bpc \<Rightarrow> bool" where
  "attached (BUnlock n vs) = True"
| "attached (BAdd n vs) = True"
| "attached (BGo n vs) = True"
| "attached pc = False"

fun locked :: "bpc \<Rightarrow> bool" where
  "locked (BAppend n vs) = True"
| "locked (BUnlock n vs) = True"
| "locked pc = False"

definition pc_ok :: "world \<Rightarrow> config \<Rightarrow> node list \<Rightarrow> nat \<Rightarrow> bpc \<Rightarrow> bool" where
  "pc_ok w c h p pc =
     (p < length h \<and> mux (h ! p) = locked pc \<and>
      (case pend pc of
         None \<Rightarrow> drop (length (Children (h ! p))) (ids_at h p) = rest pc
       | Some n \<Rightarrow>
           p < n \<and> n < length h \<and> Children (h ! n) = [] \<and> \<not> mux (h ! n) \<and>
           (if attached pc
            then Children (h ! p) \<noteq> [] \<and> last (Children (h ! p)) = n \<and>
                 drop (length (Children (h ! p))) (ids_at h p) = rest pc
            else (\<forall>x \<in> set (Children (h ! p)). x < n) \<and>
                 (\<exists>v. drop (length (Children (h ! p))) (ids_at h p) = v # rest pc \<and>
                      resolves w c v (org_at h n)))))"

fun frame_ok :: "world \<Rightarrow> config \<Rightarrow> node list \<Rightarrow> frame \<Rightarrow> bool" where
  "frame_ok w c h Idle = True"
| "frame_ok w c h (BuildOrgTree p pc) = pc_ok w c h p pc"
| "frame_ok w c h (GenerateApplications p pc) = False"

definition node_ok :: "world \<Rightarrow> config \<Rightarrow> node list \<Rightarrow> nat \<Rightarrow> bool" where
  "node_ok w c h a =
     (length (Children (h ! a)) \<le> length (ids_at h a) \<and>
      sorted_wrt (<) (Children (h ! a)) \<and>
      (\<forall>j < length (Children (h ! a)).
         a < Children (h ! a) ! j \<and> Children (h ! a) ! j < length h \<and>
         resolves w c (ids_at h a ! j) (org_at h (Children (h ! a) ! j))))"

fun owns :: "frame \<Rightarrow> nat \<Rightarrow> nat" where
  "owns (BuildOrgTree p pc) a = (if a = p then 1 else 0) + (if pend pc = Some a then 1 else 0)"
| "owns f a = 0"

fun main_owns :: "mainpc \<Rightarrow> nat \<Rightarrow> nat" where
  "main_owns (MTreeAdd node) a = (if a = node then 1 else 0)"
| "main_owns (MTreeCall node) a = (if a = node then 1 else 0)"
| "main_owns pc a = 0"

definition owners :: "state \<Rightarrow> nat \<Rightarrow> nat" where
  "owners s a = sum_list (map (\<lambda>f. owns f a) (frames s)) + main_owns (mainpc s) a"

fun building :: "mainpc \<Rightarrow> bool" where
  "building MFlags = True"
| "building MInitTree = True"
| "building (MTreeAdd node) = True"
| "building (MTreeCall node) = True"
| "building (MTreeBuild node) = True"
| "building (MTreeWait node) = True"
| "building (MGenAdd head) = True"
| "building pc = False"

definition main_ok :: "state \<Rightarrow> bool" where
  "main_ok s =
     (case mainpc s of
        MFlags \<Rightarrow> heap s = []
      | MInitTree \<Rightarrow> heap s = []
      | MTreeAdd node \<Rightarrow>
          node = 0 \<and> length (heap s) = 1 \<and> Children (heap s ! 0) = [] \<and> \<not> mux (heap s ! 0)
      | MTreeCall node \<Rightarrow>
          node = 0 \<and> length (heap s) = 1 \<and> Children (heap s ! 0) = [] \<and> \<not> mux (heap s ! 0)
      | MTreeBuild node \<Rightarrow> node = 0 \<and> (\<exists>pc. frames s ! 0 = BuildOrgTree 0 pc)
      | MTreeWait node \<Rightarrow> node = 0 \<and> frames s ! 0 = BuildOrgTree 0 BReturned
      | MGenAdd head \<Rightarrow> head = 0 \<and> frames s ! 0 = BuildOrgTree 0 BReturned \<and> g_tree s = 0
      | _ \<Rightarrow> True)"

definition tree_inv :: "world \<Rightarrow> config \<Rightarrow> state \<Rightarrow> bool" where
  "tree_inv w c s =
     ((\<forall>f \<in> set (frames s). frame_ok w c (heap s) f) \<and>
      (\<forall>a < length (heap s). node_ok w c (heap s) a) \<and>
      (\<forall>a. owners s a = (if a < length (heap s) then 1 else 0)) \<and>
      (heap s \<noteq> [] \<longrightarrow> resolves w c (rootID c) (org_at (heap s) 0)) \<and>
      main_ok s)"

definition inv :: "world \<Rightarrow> config \<Rightarrow> state \<Rightarrow> bool" where
  "inv w c s = (counter_inv s \<and> (building (mainpc s) \<longrightarrow> tree_inv w c s))"

section \<open>The hierarchy the directory describes\<close>

text \<open>
  The recursion of \<open>unfolds\<close> goes through \<^const>\<open>list_all2\<close>; the rule below tells the
  function package that it is only applied to the subtrees.
\<close>

lemma list_all2_cong_set [fundef_cong]:
  "xs = xs' \<Longrightarrow> ys = ys' \<Longrightarrow> (\<And>x y. x \<in> set xs' \<Longrightarrow> y \<in> set ys' \<Longrightarrow> P x y = Q x y) \<Longrightarrow>
   list_all2 P xs ys = list_all2 Q xs' ys'"
  by (auto simp: list_all2_conv_all_nth)

fun unfolds :: "world \<Rightarrow> config \<Rightarrow> string \<Rightarrow> tree \<Rightarrow> bool" where
  "unfolds w c v (Tree org ts) =
     (resolves w c v org \<and> list_all2 (unfolds w c) (SubOrganizationIds org) ts)"

definition complete :: "world \<Rightarrow> config \<Rightarrow> node list \<Rightarrow> bool" where
  "complete w c h =
     (\<forall>a<length h.
        length (Children (h ! a)) = length (ids_at h a) \<and>
        (\<forall>j<length (ids_at h a).
           a < Children (h ! a) ! j \<and> Children (h ! a) ! j < length h \<and>
           resolves w c (ids_at h a ! j) (org_at h (Children (h ! a) ! j))))"

definition unfoldable :: "world \<Rightarrow> config \<Rightarrow> string \<Rightarrow> bool" where
  "unfoldable w c v = (\<exists>t. unfolds w c v t)"

definition hsize :: "world \<Rightarrow> config \<Rightarrow> string \<Rightarrow> nat" where
  "hsize w c v = length (orgs (THE t. unfolds w c v t))"

definition osize :: "world \<Rightarrow> config \<Rightarrow> organization \<Rightarrow> nat" where
  "osize w c org = sum_list (map (hsize w c) (SubOrganizationIds org))"

fun pcw :: "bpc \<Rightarrow> nat" where
  "pcw (BLoop vs) = 1"
| "pcw (BLock n vs) = 7"
| "pcw (BAppend n vs) = 6"
| "pcw (BUnlock n vs) = 5"
| "pcw (BAdd n vs) = 4"
| "pcw (BGo n vs) = 3"
| "pcw BReturned = 0"

fun work :: "world \<Rightarrow> config \<Rightarrow> node list \<Rightarrow> frame \<Rightarrow> nat" where
  "work w c h (BuildOrgTree p pc) =
     8 * (sum_list (map (hsize w c) (rest pc)) +
          (case pend pc of None \<Rightarrow> 0 | Some n \<Rightarrow> osize w c (org_at h n))) + pcw pc"
| "work w c h f = 0"

fun mainw :: "world \<Rightarrow> config \<Rightarrow> node list \<Rightarrow> mainpc \<Rightarrow> nat" where
  "mainw w c h MFlags = 8 * hsize w c (rootID c) + 6"
| "mainw w c h MInitTree = 8 * hsize w c (rootID c) + 5"
| "mainw w c h (MTreeAdd node) = 8 * osize w c (org_at h node) + 5"
| "mainw w c h (MTreeCall node) = 8 * osize w c (org_at h node) + 4"
| "mainw w c h (MTreeBuild node) = 2"
| "mainw w c h (MTreeWait node) = 1"
| "mainw w c h pc = 0"

definition effort :: "world \<Rightarrow> config \<Rightarrow> state \<Rightarrow> nat" where
  "effort w c s =
     sum_list (map (work w c (heap s)) (frames s)) + mainw w c (heap s) (mainpc s)"

definition well_posed :: "world \<Rightarrow> config \<Rightarrow> bool" where
  "well_posed w c =
     (rootID c \<noteq> [] \<and> username c \<noteq> [] \<and> password c \<noteq> [] \<and> unfoldable w c (rootID c))"

definition live :: "world \<Rightarrow> config \<Rightarrow> state \<Rightarrow> bool" where
  "live w c s =
     (exited s = None \<and>
      (\<forall>a<length (heap s). \<forall>v\<in>set (ids_at (heap s) a). unfoldable w c v))"

section \<open>Invariants of the enrichment\<close>

text \<open>
  \<open>fetched\<close> holds of an environment whose \<^verbatim>\<open>Applications\<close> is the decoded answer of the
  inventory for its ID. \<open>gen_inv\<close> is the invariant of the first pass of
  \<^verbatim>\<open>generateApplications\<close>; \<open>rerun_inv\<close> is the invariant of a pass over a heap \<open>H\<close>
  that is already enriched. \<^verbatim>\<open>searchForArtifact\<close> is never called by \<^verbatim>\<open>main\<close> and has no
  counterpart here.
\<close>

fun greg :: "frame \<Rightarrow> nat" where
  "greg (GenerateApplications p GReturned) = 0"
| "greg (GenerateApplications p (GGo k ks)) = 2"
| "greg (GenerateApplications p pc) = 1"
| "greg f = 0"

fun main_greg :: "mainpc \<Rightarrow> nat" where
  "main_greg (MGenCall head) = 1"
| "main_greg pc = 0"

fun after_build :: "mainpc \<Rightarrow> bool" where
  "after_build (MGenAdd head) = True"
| "after_build (MGenCall head) = True"
| "after_build (MGen head) = True"
| "after_build (MGenWait head) = True"
| "after_build (MWriteTree head) = True"
| "after_build (MFlatten head) = True"
| "after_build pc = False"

definition fetched :: "world \<Rightarrow> config \<Rightarrow> environment \<Rightarrow> bool" where
  "fetched w c env =
     (case getDeployedArtifacts w c (env_ID env) of
        Exit1 out err \<Rightarrow> False
      | Return out byteArray \<Rightarrow> Applications env = fst (unmarshalApplications w byteArray []))"

abbreviation envs_at :: "node list \<Rightarrow> nat \<Rightarrow> environment list" where
  "envs_at h a \<equiv> Environments (BusinessOrganization (h ! a))"

definition envs_done :: "world \<Rightarrow> config \<Rightarrow> node list \<Rightarrow> nat \<Rightarrow> nat \<Rightarrow> bool" where
  "envs_done w c h p i = (\<forall>j<i. j < length (envs_at h p) \<longrightarrow> fetched w c (envs_at h p ! j))"

definition all_done :: "world \<Rightarrow> config \<Rightarrow> node list \<Rightarrow> nat \<Rightarrow> bool" where
  "all_done w c h p = (\<forall>env\<in>set (envs_at h p). fetched w c env)"

definition covered :: "frame list \<Rightarrow> nat \<Rightarrow> bool" where
  "covered fs k = (\<exists>pc. GenerateApplications k pc \<in> set fs)"

fun gpc_ok :: "world \<Rightarrow> config \<Rightarrow> node list \<Rightarrow> frame list \<Rightarrow> nat \<Rightarrow> gpc \<Rightarrow> bool" where
  "gpc_ok w c h fs p (GEnv i) = envs_done w c h p i"
| "gpc_ok w c h fs p (GAssign i apps) =
     (envs_done w c h p i \<and> i < length (envs_at h p) \<and>
      (\<exists>out byteArray. getDeployedArtifacts w c (env_ID (envs_at h p ! i)) = Return out byteArray \<and>
          apps = fst (unmarshalApplications w byteArray [])))"
| "gpc_ok w c h fs p (GKids ks) =
     (all_done w c h p \<and> (\<exists>pre. Children (h ! p) = pre @ ks \<and> (\<forall>k\<in>set pre. covered fs k)))"
| "gpc_ok w c h fs p (GGo k ks) =
     (all_done w c h p \<and> (\<exists>pre. Children (h ! p) = pre @ k # ks \<and> (\<forall>k'\<in>set pre. covered fs k')))"
| "gpc_ok w c h fs p GReturned =
     (all_done w c h p \<and> (\<forall>k\<in>set (Children (h ! p)). covered fs k))"

fun gframe_ok :: "world \<Rightarrow> config \<Rightarrow> node list \<Rightarrow> frame list \<Rightarrow> frame \<Rightarrow> bool" where
  "gframe_ok w c h fs Idle = True"
| "gframe_ok w c h fs (BuildOrgTree p pc) = (pc = BReturned)"
| "gframe_ok w c h fs (GenerateApplications p pc) = gpc_ok w c h fs p pc"

definition gmain_ok :: "state \<Rightarrow> bool" where
  "gmain_ok s =
     (case mainpc s of
        MGenAdd head \<Rightarrow> (\<exists>p. frames s ! 0 = BuildOrgTree p BReturned)
      | MGenCall head \<Rightarrow> (\<exists>p. frames s ! 0 = BuildOrgTree p BReturned)
      | MGen head \<Rightarrow> (\<exists>pc. frames s ! 0 = GenerateApplications head pc)
      | MGenWait head \<Rightarrow> frames s ! 0 = GenerateApplications head GReturned
      | MWriteTree head \<Rightarrow> frames s ! 0 = GenerateApplications head GReturned \<and> g_main s = 0
      | MFlatten head \<Rightarrow> frames s ! 0 = GenerateApplications head GReturned \<and> g_main s = 0
      | _ \<Rightarrow> False)"

definition gen_inv :: "world \<Rightarrow> config \<Rightarrow> state \<Rightarrow> bool" where
  "gen_inv w c s =
     (g_main s = int (sum_list (map greg (frames s)) + main_greg (mainpc s)) \<and>
      frames s \<noteq> [] \<and>
      (\<forall>f\<in>set (frames s). gframe_ok w c (heap s) (frames s) f) \<and>
      gmain_ok s)"

definition enriches :: "world \<Rightarrow> config \<Rightarrow> node list \<Rightarrow> node list \<Rightarrow> bool" where
  "enriches w c h h' =
     (\<forall>a. Children (h' ! a) = Children (h ! a) \<and>
          list_all2 (\<lambda>e e'. env_ID e' = env_ID e \<and> (fetched w c e \<longrightarrow> fetched w c e'))
            (envs_at h a) (envs_at h' a))"

definition full_inv :: "world \<Rightarrow> config \<Rightarrow> state \<Rightarrow> bool" where
  "full_inv w c s =
     (inv w c s \<and> (building (mainpc s) \<longrightarrow> g_main s = 0) \<and>
      (after_build (mainpc s) \<longrightarrow> gen_inv w c s))"

inductive_set reach :: "node list \<Rightarrow> nat \<Rightarrow> nat set" for h :: "node list" and head :: nat where
  root: "head \<in> reach h head"
| child: "a \<in> reach h head \<Longrightarrow> k \<in> set (Children (h ! a)) \<Longrightarrow> k \<in> reach h head"

fun inert :: "frame \<Rightarrow> bool" where
  "inert Idle = True"
| "inert (BuildOrgTree p pc) = (pc = BReturned)"
| "inert (GenerateApplications p pc) = (pc = GReturned)"

fun rpc_ok :: "node list \<Rightarrow> nat \<Rightarrow> nat \<Rightarrow> gpc \<Rightarrow> bool" where
  "rpc_ok H head p (GEnv i) = (p \<in> reach H head)"
| "rpc_ok H head p (GAssign i apps) =
     (p \<in> reach H head \<and> i < length (envs_at H p) \<and> apps = Applications (envs_at H p ! i))"
| "rpc_ok H head p (GKids ks) = (p \<in> reach H head \<and> set ks \<subseteq> set (Children (H ! p)))"
| "rpc_ok H head p (GGo k ks) =
     (p \<in> reach H head \<and> k \<in> set (Children (H ! p)) \<and> set ks \<subseteq> set (Children (H ! p)))"
| "rpc_ok H head p GReturned = True"

fun rframe_ok :: "node list \<Rightarrow> nat \<Rightarrow> frame \<Rightarrow> bool" where
  "rframe_ok H head Idle = True"
| "rframe_ok H head (BuildOrgTree p pc) = (pc = BReturned)"
| "rframe_ok H head (GenerateApplications p pc) = rpc_ok H head p pc"

fun main_head :: "mainpc \<Rightarrow> nat option" where
  "main_head (MGenAdd head) = Some head"
| "main_head (MGenCall head) = Some head"
| "main_head (MGen head) = Some head"
| "main_head (MGenWait head) = Some head"
| "main_head (MWriteTree head) = Some head"
| "main_head (MFlatten head) = Some head"
| "main_head pc = None"

definition rerun_inv :: "node list \<Rightarrow> nat \<Rightarrow> state \<Rightarrow> bool" where
  "rerun_inv H head s =
     (heap s = H \<and> main_head (mainpc s) = Some head \<and> (\<forall>f\<in>set (frames s). rframe_ok H head f))"

section \<open>Examples\<close>

definition org_A :: organization where
  "org_A = \<lparr>Name = ''A'', ID = ''1'', SubOrganizationIds = [''2'', ''3''], Environments = []\<rparr>"

definition app_x :: application where
  "app_x = \<lparr>Domain = ''x.example'', FullDomain = ''x.example.io'', Status = ''STARTED'',
            FileName = ''x.jar'', Workers_Type_CPU = ''0.1'', Workers_Amount = 1,
            Workers_RemainingOrgWorkers = 0, Workers_TotalOrgWorkers = 0,
            LastUpdateTime = 0, MuleVersion_Version = ''4''\<rparr>"

definition env_E :: environment where
  "env_E = \<lparr>env_ID = ''e'', env_Name = ''E'', Applications = []\<rparr>"

definition org_B :: organization where
  "org_B = \<lparr>Name = ''B'', ID = ''2'', SubOrganizationIds = [], Environments = [env_E]\<rparr>"

definition org_C :: organization where
  "org_C = \<lparr>Name = ''C'', ID = ''3'', SubOrganizationIds = [], Environments = []\<rparr>"

definition org_B2 :: organization where
  "org_B2 = \<lparr>Name = ''B'', ID = ''3'', SubOrganizationIds = [], Environments = []\<rparr>"

text \<open>
  A directory with the organization \<open>1\<close> and its two children \<open>2\<close> and \<open>3\<close>; the body of a
  reply is the identifier asked for, and the decoder knows the three bodies. Every other
  identifier is answered with status 404, and that body is not decoded.
\<close>

definition ex_http :: "request \<Rightarrow> response" where
  "ex_http r =
     (case r of
        GetOrganization u p i \<Rightarrow>
          if i = ''1'' \<or> i = ''2'' \<or> i = ''3'' then Response 200 i else Response 404 ''?''
      | GetApplications u p e \<Rightarrow> Response 200 e)"

definition ex_unmarshalOrganization :: "string \<Rightarrow> organization \<Rightarrow> organization \<times> bool" where
  "ex_unmarshalOrganization body v =
     (if body = ''1'' then (org_A, True)
      else if body = ''2'' then (org_B, True)
      else if body = ''3'' then (org_C, True)
      else (v, False))"

definition ex_unmarshalApplications ::
  "string \<Rightarrow> application list \<Rightarrow> application list \<times> bool" where
  "ex_unmarshalApplications body v = (if body = ''e'' then ([app_x], True) else (v, False))"

definition ex_world :: world where
  "ex_world = \<lparr>http = ex_http,
               unmarshalOrganization = ex_unmarshalOrganization,
               unmarshalApplications = ex_unmarshalApplications,
               writeFile = (\<lambda>name data. Inr 1),
               rangeOrder = []\<rparr>"

definition ex_config :: config where
  "ex_config = \<lparr>rootID = ''1'', username = ''u'', password = ''p'', outdir = ''.''\<rparr>"

text \<open>The same command line without a password, and with a root identifier the
  directory answers with status 404.\<close>

definition ex_config_no_password :: config where
  "ex_config_no_password = ex_config\<lparr>password := []\<rparr>"

definition ex_config_unknown_root :: config where
  "ex_config_unknown_root = ex_config\<lparr>rootID := ''9''\<rparr>"

text \<open>The same services, but the inventory answers every call with status 500.\<close>

definition ex_world_inventory_down :: world where
  "ex_world_inventory_down =
     ex_world\<lparr>http := (\<lambda>r. case r of GetApplications u p e \<Rightarrow> Response 500 ''?''
                                 | GetOrganization u p i \<Rightarrow> ex_http r)\<rparr>"

text \<open>
  The same services with a decoder that, for the body \<open>?\<close>, fills in the name and the
  sub-organizations, fails on another field and returns an error, as \<^verbatim>\<open>json.Unmarshal\<close>
  does when a single field has the wrong JSON type.
\<close>

definition ex_world_partial :: world where
  "ex_world_partial =
     ex_world\<lparr>unmarshalOrganization :=
       (\<lambda>body v. if body = ''?'' then (v\<lparr>Name := ''Z'', SubOrganizationIds := [''3'']\<rparr>, False)
                  else ex_unmarshalOrganization body v)\<rparr>"

text \<open>
  Two schedules for the example. After the first, InitTree stands at \<^verbatim>\<open>g.Wait()\<close> and the
  calls for the two children have been started and have not moved. The second lets the call
  for the second child finish, then the one for the first, then the main goroutine pass
  \<^verbatim>\<open>g.Wait()\<close>.
\<close>

definition ex_sched_waiting :: "nat list" where
  "ex_sched_waiting = replicate 18 0"

definition ex_sched_built :: "nat list" where
  "ex_sched_built = replicate 18 0 @ [2, 1, 0]"

definition ex_tree :: tree where
  "ex_tree = Tree org_A [Tree org_B [], Tree org_C []]"

text \<open>
  A schedule that runs the example through InitTree and the enrichment, up to the return of
  \<^verbatim>\<open>g.Wait()\<close> in \<^verbatim>\<open>main\<close>, and a schedule for enriching once more from there.
\<close>

definition ex_sched_enriched :: "nat list" where
  "ex_sched_enriched = replicate 18 0 @ [2, 1] @ replicate 10 0 @ [3, 3, 3, 3, 4, 4, 0]"

definition ex_sched_again :: "nat list" where
  "ex_sched_again = replicate 9 0 @ [5, 5, 5, 5, 6, 6, 0]"

section \<open>Properties of flattenTree\<close>

lemma store_all_Nil [simp]: "store_all [] m = m"
  by (simp add: store_all_def)

lemma store_all_Cons [simp]:
  "store_all (org # os) m = store_all os (AList.update (Name org) org m)"
  by (simp add: store_all_def)

lemma store_all_append [simp]: "store_all (xs @ ys) m = store_all ys (store_all xs m)"
  by (simp add: store_all_def)

lemma fold_flatten_store:
  assumes "\<And>c m. c \<in> set cs \<Longrightarrow> flattenTree c m = store_all (orgs c) m"
  shows "fold flattenTree cs m = store_all (concat (map orgs cs)) m"
  using assms by (induction cs arbitrary: m) simp_all

lemma flattenTree_store_all: "flattenTree t m = store_all (orgs t) m"
proof (induction t arbitrary: m)
  case (Tree org cs)
  have "fold flattenTree cs (AList.update (Name org) org m) =
        store_all (concat (map orgs cs)) (AList.update (Name org) org m)"
    by (rule fold_flatten_store) (simp add: Tree.IH)
  then show ?case by simp
qed

lemma distinct_store_all: "distinct (map fst m) \<Longrightarrow> distinct (map fst (store_all os m))"
  by (induction os arbitrary: m) (simp_all add: distinct_update)

lemma keys_store_all: "fst ` set (store_all os m) = fst ` set m \<union> Name ` set os"
proof (induction os arbitrary: m)
  case Nil
  show ?case by simp
next
  case (Cons org os)
  have "fst ` set (AList.update (Name org) org m) = insert (Name org) (fst ` set m)"
    using dom_update [of "Name org" org m] by (simp add: dom_map_of_conv_image_fst)
  with Cons.IH [of "AList.update (Name org) org m"] show ?case by auto
qed

lemma map_of_store_all_notin:
  "k \<notin> Name ` set os \<Longrightarrow> map_of (store_all os m) k = map_of m k"
  by (induction os arbitrary: m) (auto simp: update_conv')

lemma map_of_store_all_in:
  "distinct (map Name os) \<Longrightarrow> org \<in> set os \<Longrightarrow> map_of (store_all os m) (Name org) = Some org"
proof (induction os arbitrary: m)
  case Nil
  then show ?case by simp
next
  case (Cons a os)
  show ?case
  proof (cases "org = a")
    case True
    with Cons.prems have "Name org \<notin> Name ` set os" by auto
    then have "map_of (store_all os (AList.update (Name a) a m)) (Name org) =
               map_of (AList.update (Name a) a m) (Name org)"
      by (rule map_of_store_all_notin)
    with True show ?thesis by (simp add: update_conv')
  next
    case False
    with Cons.prems have "org \<in> set os" "distinct (map Name os)" by auto
    then show ?thesis using Cons.IH by simp
  qed
qed

lemma length_distinct_keys:
  "distinct (map fst (m :: orgMap)) \<Longrightarrow> length m = card (fst ` set m)"
  using distinct_card [of "map fst m"] by simp

lemma length_store_all: "length (store_all os []) = card (Name ` set os)"
proof -
  have "distinct (map fst (store_all os []))" by (rule distinct_store_all) simp
  then have "length (store_all os []) = card (fst ` set (store_all os []))"
    by (rule length_distinct_keys)
  then show ?thesis by (simp add: keys_store_all)
qed

lemma map_of_store_all_distinct:
  assumes "distinct (map Name os)"
  shows "map_of (store_all os []) k =
         (if k \<in> Name ` set os then Some (THE org. org \<in> set os \<and> Name org = k) else None)"
proof (cases "k \<in> Name ` set os")
  case False
  then show ?thesis by (simp add: map_of_store_all_notin)
next
  case True
  then obtain org where org: "org \<in> set os" "Name org = k" by auto
  from assms have inj: "inj_on Name (set os)" by (simp add: distinct_map)
  have uniq: "o' = org" if "o' \<in> set os" "Name o' = k" for o'
    by (rule inj_onD [OF inj]) (simp_all add: that org)
  have "(THE o'. o' \<in> set os \<and> Name o' = k) = org"
  proof (rule the_equality)
    show "org \<in> set os \<and> Name org = k" using org by simp
  next
    fix o' assume "o' \<in> set os \<and> Name o' = k"
    then show "o' = org" using uniq by simp
  qed
  with True org map_of_store_all_in [OF assms org(1), of "[]"] show ?thesis by simp
qed

lemma store_all_order_irrelevant:
  assumes "distinct (map Name os)" and "mset os' = mset os"
  shows "map_of (store_all os' []) = map_of (store_all os [])"
proof -
  have "mset (map Name os') = mset (map Name os)" using assms(2) by simp
  then have d: "distinct (map Name os')"
    using assms(1) mset_eq_imp_distinct_iff [of "map Name os'" "map Name os"] by simp
  have s: "set os' = set os" using assms(2) by (rule mset_eq_setD)
  show ?thesis
    by (rule ext) (simp add: map_of_store_all_distinct [OF assms(1)]
        map_of_store_all_distinct [OF d] s)
qed

text \<open>
  C5. For a tree whose organizations all have distinct display names, flattenTree started
  on the empty map yields one entry per node: the keys are distinct, they are exactly the
  nodes' display names, there are as many entries as nodes, every node's name is mapped to
  that node's Organization, and any tree holding the same organizations in another order
  (children inserted in another order) yields the same mapping.
\<close>

theorem flattenTree_distinct_names:
  assumes "distinct (map Name (orgs t))"
  shows "distinct (map fst (flattenTree t [])) \<and>
         fst ` set (flattenTree t []) = Name ` set (orgs t) \<and>
         length (flattenTree t []) = length (orgs t) \<and>
         (\<forall>org \<in> set (orgs t). map_of (flattenTree t []) (Name org) = Some org) \<and>
         (\<forall>t'. mset (orgs t') = mset (orgs t) \<longrightarrow>
               map_of (flattenTree t' []) = map_of (flattenTree t []))"
proof (intro conjI ballI allI impI)
  show "distinct (map fst (flattenTree t []))"
    by (simp add: flattenTree_store_all distinct_store_all)
  show "fst ` set (flattenTree t []) = Name ` set (orgs t)"
    by (simp add: flattenTree_store_all keys_store_all)
  have "card (Name ` set (orgs t)) = length (orgs t)"
    using assms distinct_card [of "map Name (orgs t)"] by simp
  then show "length (flattenTree t []) = length (orgs t)"
    by (simp add: flattenTree_store_all length_store_all)
  show "map_of (flattenTree t []) (Name org) = Some org" if "org \<in> set (orgs t)" for org
    using assms that by (simp add: flattenTree_store_all map_of_store_all_in)
  show "map_of (flattenTree t' []) = map_of (flattenTree t [])"
    if "mset (orgs t') = mset (orgs t)" for t'
    using store_all_order_irrelevant [OF assms that] by (simp add: flattenTree_store_all)
qed

lemmas example_orgs = org_A_def org_B_def org_C_def

theorem flattenTree_distinct_names_witness:
  "distinct (map Name (orgs (Tree org_A [Tree org_B [], Tree org_C []]))) \<and>
   flattenTree (Tree org_A [Tree org_B [], Tree org_C []]) [] =
     [(''A'', org_A), (''B'', org_B), (''C'', org_C)] \<and>
   length (flattenTree (Tree org_A [Tree org_B [], Tree org_C []]) []) = 3 \<and>
   map_of (flattenTree (Tree org_A [Tree org_C [], Tree org_B []]) []) =
     map_of (flattenTree (Tree org_A [Tree org_B [], Tree org_C []]) [])"
proof -
  have d: "distinct (map Name (orgs (Tree org_A [Tree org_B [], Tree org_C []])))"
    by (simp add: example_orgs)
  have m: "mset (orgs (Tree org_A [Tree org_C [], Tree org_B []])) =
           mset (orgs (Tree org_A [Tree org_B [], Tree org_C []]))"
    by simp
  from flattenTree_distinct_names [OF d] m
  have "map_of (flattenTree (Tree org_A [Tree org_C [], Tree org_B []]) []) =
        map_of (flattenTree (Tree org_A [Tree org_B [], Tree org_C []]) [])"
    by blast
  moreover have "flattenTree (Tree org_A [Tree org_B [], Tree org_C []]) [] =
     [(''A'', org_A), (''B'', org_B), (''C'', org_C)]"
    by (simp add: example_orgs)
  ultimately show ?thesis using d by simp
qed

lemma store_all_entry_key:
  "map_of (store_all os m) k = Some v \<Longrightarrow> k = Name v \<or> map_of m k = Some v"
proof (induction os arbitrary: m)
  case Nil
  then show ?case by simp
next
  case (Cons a os)
  from Cons.IH [of "AList.update (Name a) a m"] Cons.prems
  show ?case by (auto simp: update_conv' split: if_splits)
qed

lemma store_all_value_key:
  assumes "v \<in> snd ` set (store_all os [])"
  shows "map_of (store_all os []) (Name v) = Some v"
proof -
  from assms obtain k where kv: "(k, v) \<in> set (store_all os [])" by force
  have "distinct (map fst (store_all os []))" by (rule distinct_store_all) simp
  with kv have look: "map_of (store_all os []) k = Some v" by simp
  with store_all_entry_key [of os "[]" k v] have "k = Name v" by simp
  with look show ?thesis by simp
qed

lemma card_names_less:
  assumes "i < j" and "j < length os" and "Name (os ! i) = Name (os ! j)"
  shows "card (Name ` set os) < length os"
proof -
  have "i < length os \<and> j < length os \<and> i \<noteq> j \<and> Name (os ! i) = Name (os ! j)"
    using assms by simp
  then have "\<not> distinct (map Name os)"
    unfolding distinct_conv_nth by (metis length_map nth_map)
  then have "card (set (map Name os)) \<noteq> length (map Name os)"
    using card_distinct by blast
  moreover have "card (set (map Name os)) \<le> length (map Name os)"
    by (rule card_length)
  ultimately show ?thesis by simp
qed

text \<open>
  C6. The mapping is keyed by display name. When the nodes at two positions of the
  traversal carry the same display name, the mapping has fewer entries than the tree has
  nodes; it still holds one entry per name, and when the two organizations differ, at least
  one of them is not a value of the mapping any more.
\<close>

theorem flattenTree_shared_name:
  assumes "i < j" and "j < length (orgs t)" and "Name (orgs t ! i) = Name (orgs t ! j)"
  shows "length (flattenTree t []) < length (orgs t) \<and>
         distinct (map fst (flattenTree t [])) \<and>
         fst ` set (flattenTree t []) = Name ` set (orgs t) \<and>
         (orgs t ! i \<noteq> orgs t ! j \<longrightarrow>
            orgs t ! i \<notin> snd ` set (flattenTree t []) \<or>
            orgs t ! j \<notin> snd ` set (flattenTree t []))"
proof (intro conjI impI)
  show "length (flattenTree t []) < length (orgs t)"
    using card_names_less [OF assms] by (simp add: flattenTree_store_all length_store_all)
  show "distinct (map fst (flattenTree t []))"
    by (simp add: flattenTree_store_all distinct_store_all)
  show "fst ` set (flattenTree t []) = Name ` set (orgs t)"
    by (simp add: flattenTree_store_all keys_store_all)
  show "orgs t ! i \<notin> snd ` set (flattenTree t []) \<or> orgs t ! j \<notin> snd ` set (flattenTree t [])"
    if ne: "orgs t ! i \<noteq> orgs t ! j"
  proof (rule ccontr)
    assume "\<not> ?thesis"
    then have "map_of (store_all (orgs t) []) (Name (orgs t ! i)) = Some (orgs t ! i)"
      and "map_of (store_all (orgs t) []) (Name (orgs t ! j)) = Some (orgs t ! j)"
      by (simp_all add: flattenTree_store_all store_all_value_key)
    with assms(3) ne show False by simp
  qed
qed

theorem flattenTree_shared_name_witness:
  "(1::nat) < 2 \<and> 2 < length (orgs (Tree org_A [Tree org_B [], Tree org_B2 []])) \<and>
   Name (orgs (Tree org_A [Tree org_B [], Tree org_B2 []]) ! 1) =
   Name (orgs (Tree org_A [Tree org_B [], Tree org_B2 []]) ! 2) \<and>
   length (flattenTree (Tree org_A [Tree org_B [], Tree org_B2 []]) []) < 3 \<and>
   flattenTree (Tree org_A [Tree org_B [], Tree org_B2 []]) [] =
     [(''A'', org_A), (''B'', org_B2)]"
proof -
  have h: "(1::nat) < 2" "2 < length (orgs (Tree org_A [Tree org_B [], Tree org_B2 []]))"
    "Name (orgs (Tree org_A [Tree org_B [], Tree org_B2 []]) ! 1) =
     Name (orgs (Tree org_A [Tree org_B [], Tree org_B2 []]) ! 2)"
    by (simp_all add: org_B_def org_B2_def)
  from flattenTree_shared_name [OF h]
  have l: "length (flattenTree (Tree org_A [Tree org_B [], Tree org_B2 []]) []) < 3"
    by simp
  have f: "flattenTree (Tree org_A [Tree org_B [], Tree org_B2 []]) [] =
     [(''A'', org_A), (''B'', org_B2)]"
    by (simp add: example_orgs org_B2_def)
  show ?thesis by (intro conjI h l f)
qed

section \<open>Start of the process\<close>

lemma step_exited: "exited s \<noteq> None \<Longrightarrow> step w c i s = None"
  by (simp add: step_def)

lemma run_exited: "exited s \<noteq> None \<Longrightarrow> run w c sched s = Some s' \<Longrightarrow> sched = [] \<and> s' = s"
  by (cases sched) (simp_all add: step_exited)

lemma step_init_other: "i \<noteq> 0 \<Longrightarrow> step w c i init = None"
  by (simp add: step_def frame_run_def init_def)

lemma step_init_main: "step w c 0 init = main_step w c init"
  by (simp add: step_def in_call_def init_def)

text \<open>
  C9. When the root identifier, the username or the password is empty, the first step of the
  process prints the complaint and exits with status 1, and whatever the schedule, no state
  the process reaches has a remote call made, a file written or a node built.
\<close>

theorem missing_flag_exits_first:
  assumes "rootID c = [] \<or> username c = [] \<or> password c = []"
  shows "step w c 0 init = Some (exit_with 1 [MissingFlags] [] init) \<and>
         (\<forall>sched s. run w c sched init = Some s \<longrightarrow>
            requests s = [] \<and> written s = [] \<and> heap s = [] \<and>
            (sched \<noteq> [] \<longrightarrow> exited s = Some 1 \<and> stdout s = [MissingFlags]))"
proof -
  have first: "step w c 0 init = Some (exit_with 1 [MissingFlags] [] init)"
    unfolding step_init_main using assms by (simp add: main_step_def init_def)
  have "s = init \<and> sched = [] \<or> s = exit_with 1 [MissingFlags] [] init \<and> sched \<noteq> []"
    if r: "run w c sched init = Some s" for sched s
  proof (cases sched)
    case Nil
    with r show ?thesis by simp
  next
    case (Cons i rest)
    have i0: "i = 0"
    proof (rule ccontr)
      assume "i \<noteq> 0"
      then have "step w c i init = None" by (rule step_init_other)
      with r Cons show False by simp
    qed
    with r Cons first have r': "run w c rest (exit_with 1 [MissingFlags] [] init) = Some s"
      by simp
    have "exited (exit_with 1 [MissingFlags] [] init) \<noteq> None" by (simp add: exit_with_def)
    from run_exited [OF this r'] Cons show ?thesis by simp
  qed
  then have "requests s = [] \<and> written s = [] \<and> heap s = [] \<and>
            (sched \<noteq> [] \<longrightarrow> exited s = Some 1 \<and> stdout s = [MissingFlags])"
    if "run w c sched init = Some s" for sched s
    using that by (fastforce simp: init_def exit_with_def)
  with first show ?thesis by blast
qed

theorem missing_flag_exits_first_witness:
  "password ex_config_no_password = [] \<and>
   run ex_world ex_config_no_password [0] init = Some (exit_with 1 [MissingFlags] [] init) \<and>
   exited (exit_with 1 [MissingFlags] [] init) = Some 1 \<and>
   requests (exit_with 1 [MissingFlags] [] init) = [] \<and>
   written (exit_with 1 [MissingFlags] [] init) = []"
proof -
  have h: "rootID ex_config_no_password = [] \<or> username ex_config_no_password = [] \<or>
           password ex_config_no_password = []"
    by (simp add: ex_config_no_password_def)
  note t = missing_flag_exits_first [OF h, of ex_world]
  from t have r: "run ex_world ex_config_no_password [0] init =
                  Some (exit_with 1 [MissingFlags] [] init)"
    by simp
  with t have "requests (exit_with 1 [MissingFlags] [] init) = [] \<and>
               written (exit_with 1 [MissingFlags] [] init) = [] \<and>
               exited (exit_with 1 [MissingFlags] [] init) = Some 1"
    by blast
  with r show ?thesis by (simp add: ex_config_no_password_def)
qed

section \<open>A status other than 200\<close>

text \<open>
  C4. The directory answers the root identifier \<open>9\<close> with status 404. With the main
  goroutine taking fifteen steps, the process prints the status, builds a one-node tree from
  the undecodable body, writes both files and exits with status 0. The sibling call behaves
  as the claim says: with an inventory that answers 500, the first call for an environment
  ends the process with status 1 and nothing written.
\<close>

theorem directory_status_not_fatal:
  "map_option (\<lambda>s. (exited s, hd (stdout s), map fst (written s), requests s))
     (run ex_world ex_config_unknown_root (replicate 15 0) init) =
   Some (Some 0, NonOKStatus 404, [''./metrics.json'', ''./metrics_flat.json''],
         [GetOrganization ''u'' ''p'' ''9'']) \<and>
   map_option (\<lambda>s. (exited s, stdout s, written s))
     (run ex_world_inventory_down ex_config (replicate 18 0 @ [2, 1] @ replicate 10 0 @ [3]) init) =
   Some (Some 1, [NonOKStatus 500], [])"
  by code_simp

section \<open>A body that does not decode\<close>

text \<open>
  C10, as stated, fails: the decoder reports an error for the body \<open>?\<close> and has filled in
  two fields before; the node built from that body is not the zero Organization.
\<close>

theorem decode_error_node_not_zero:
  "snd (unmarshalOrganization ex_world_partial ''?'' zero_organization) = False \<and>
   map_option (\<lambda>s. map BusinessOrganization (heap s))
     (run ex_world_partial ex_config_unknown_root [0, 0] init) =
   Some [\<lparr>Name = ''Z'', ID = [], SubOrganizationIds = [''3''], Environments = []\<rparr>] \<and>
   \<lparr>Name = ''Z'', ID = [], SubOrganizationIds = [''3''], Environments = []\<rparr> \<noteq> zero_organization"
  by code_simp

section \<open>The build keeps its invariants\<close>

lemma sum_list_update_add:
  fixes xs :: "nat list"
  shows "i < length xs \<Longrightarrow> sum_list (xs[i := y]) + xs ! i = sum_list xs + y"
proof (induction xs arbitrary: i)
  case Nil
  then show ?case by simp
next
  case (Cons x xs)
  then show ?case by (cases i) auto
qed

lemma sum_map_update:
  fixes f :: "'a \<Rightarrow> nat"
  assumes "i < length xs"
  shows "sum_list (map f (xs[i := y])) + f (xs ! i) = sum_list (map f xs) + f y"
  using sum_list_update_add [of i "map f xs" "f y"] assms by (simp add: map_update)

lemma build_step_counter:
  assumes "build_step w c p pc s = Some (pc', s')"
    and "int (reg (BuildOrgTree p pc)) \<le> g_tree s"
  shows "mainpc s' = mainpc s \<and>
         (\<exists>new. frames s' = frames s @ new \<and>
            g_tree s' + int (reg (BuildOrgTree p pc)) =
            g_tree s + int (reg (BuildOrgTree p pc')) + int (sum_list (map reg new)))"
  using assms
  by (cases "(w, c, p, pc, s)" rule: build_step.cases)
     (auto simp: done_tree_def exit_with_def sent_def alloc_def print_def modify_def Let_def
           split: outcome.splits if_splits)

lemma gen_step_counter:
  assumes "gen_step w c p pc s = Some (pc', s')"
  shows "mainpc s' = mainpc s \<and> g_tree s' = g_tree s \<and>
         (\<exists>new. frames s' = frames s @ new \<and> sum_list (map reg new) = 0)"
  using assms
  by (cases "(w, c, p, pc, s)" rule: gen_step.cases)
     (auto simp: done_main_def exit_with_def sent_def alloc_def print_def modify_def Let_def
           split: outcome.splits if_splits)

lemma frame_step_counter:
  assumes "frame_step w c f s = Some (f', s')" and "int (reg f) \<le> g_tree s"
  shows "mainpc s' = mainpc s \<and>
         (\<exists>new. frames s' = frames s @ new \<and>
            g_tree s' + int (reg f) = g_tree s + int (reg f') + int (sum_list (map reg new)))"
proof (cases f)
  case Idle
  with assms show ?thesis by simp
next
  case (BuildOrgTree p pc)
  with assms obtain pc' where "build_step w c p pc s = Some (pc', s')" "f' = BuildOrgTree p pc'"
    by (auto split: if_splits)
  with build_step_counter [of w c p pc s pc' s'] assms(2) BuildOrgTree show ?thesis by simp
next
  case (GenerateApplications p pc)
  with assms obtain pc' where "gen_step w c p pc s = Some (pc', s')"
    "f' = GenerateApplications p pc'"
    by (auto split: if_splits)
  with gen_step_counter [of w c p pc s pc' s'] GenerateApplications show ?thesis by auto
qed

lemma frame_step_reg_zero:
  assumes "frame_step w c f s = Some (f', s')" and "reg f = 0"
  shows "reg f' = 0"
proof (cases f)
  case (BuildOrgTree p pc)
  with assms show ?thesis by (cases pc) (auto split: if_splits)
qed (use assms in \<open>auto split: if_splits\<close>)

lemma reg_le_sum: "i < length fs \<Longrightarrow> reg (fs ! i) \<le> sum_list (map reg fs)"
  by (simp add: member_le_sum_list)

lemma frame_run_counter:
  assumes "frame_run w c i s = Some s'" and "counter_inv s"
    and "i = 0 \<longrightarrow> in_call s"
  shows "counter_inv s'"
proof -
  from assms(1) obtain f' s1 where i: "i < length (frames s)"
    and fs: "frame_step w c (frames s ! i) s = Some (f', s1)"
    and s': "s' = s1\<lparr>frames := (frames s1)[i := f']\<rparr>"
    by (auto simp: frame_run_def split: if_splits option.splits)
  from assms(2) have g: "g_tree s = int (sum_list (map reg (frames s)) + main_reg (mainpc s))"
    by (simp add: counter_inv_def registered_def)
  from reg_le_sum [OF i] g have le: "int (reg (frames s ! i)) \<le> g_tree s" by simp
  from frame_step_counter [OF fs le] obtain new where
    m: "mainpc s1 = mainpc s" and fr: "frames s1 = frames s @ new" and
    eq: "g_tree s1 + int (reg (frames s ! i)) = g_tree s + int (reg f') + int (sum_list (map reg new))"
    by blast
  have upd: "(frames s1)[i := f'] = (frames s)[i := f'] @ new"
    using i fr by (simp add: list_update_append)
  have sum: "sum_list (map reg ((frames s)[i := f'])) + reg (frames s ! i) =
             sum_list (map reg (frames s)) + reg f'"
    by (rule sum_map_update [OF i])
  have notidle: "frames s \<noteq> [Idle]" using fs i by (cases "frames s") auto
  have nb: "\<not> before_call (mainpc s)" using assms(2) notidle by (auto simp: counter_inv_def)
  have "g_tree s' = int (registered s')"
    using g eq sum by (simp add: s' registered_def upd m)
  moreover have "length (frames s') = length (frames s) + length new" by (simp add: s' upd)
  then have "frames s' \<noteq> []" using i by auto
  moreover have "reg (frames s' ! 0) = 0" if "\<not> in_build (mainpc s)"
  proof (cases "i = 0")
    case True
    from assms(2) nb that have "reg (frames s ! 0) = 0" by (simp add: counter_inv_def)
    with fs True have "reg f' = 0" using frame_step_reg_zero by blast
    moreover have "frames s' ! i = f'" using i by (simp add: s' fr)
    ultimately show ?thesis using True by simp
  next
    case False
    with i have "frames s' ! 0 = frames s ! 0" by (auto simp: s' upd nth_append)
    with assms(2) nb that show ?thesis by (simp add: counter_inv_def)
  qed
  ultimately show ?thesis using nb by (simp add: counter_inv_def s' m)
qed

lemma main_step_counter:
  assumes "main_step w c s = Some s'" and "counter_inv s" and "\<not> in_call s"
  shows "counter_inv s'"
proof (cases "mainpc s")
  case (MTreeBuild node)
  with assms show ?thesis
    by (auto simp: main_step_def counter_inv_def registered_def in_call_def)
next
  case (MGen head)
  with assms show ?thesis
    by (auto simp: main_step_def counter_inv_def registered_def in_call_def)
next
  case (MWriteTree head)
  with assms show ?thesis
    by (auto simp: main_step_def counter_inv_def registered_def exit_with_def
        split: option.splits sum.splits)
next
  case (MFlatten head)
  with assms show ?thesis
    by (auto simp: main_step_def counter_inv_def registered_def exit_with_def print_def Let_def
        split: option.splits sum.splits)
next
  case (MGenCall head)
  with assms(2) have r: "reg (frames s ! 0) = 0" and ne: "frames s \<noteq> []"
    and g: "g_tree s = int (sum_list (map reg (frames s)))"
    by (simp_all add: counter_inv_def registered_def)
  from ne have l: "0 < length (frames s)" by simp
  from sum_map_update [OF l, of reg "GenerateApplications head (GEnv 0)"] r
  have "sum_list (map reg ((frames s)[0 := GenerateApplications head (GEnv 0)])) =
        sum_list (map reg (frames s))" by simp
  with assms MGenCall g ne l show ?thesis
    by (auto simp: main_step_def counter_inv_def registered_def)
qed (use assms in \<open>auto simp: main_step_def counter_inv_def registered_def exit_with_def
        sent_def alloc_def print_def Let_def split: outcome.splits if_splits\<close>)

lemma step_counter: "step w c i s = Some s' \<Longrightarrow> counter_inv s \<Longrightarrow> counter_inv s'"
  by (auto simp: step_def split: if_splits
      intro: main_step_counter frame_run_counter)

lemma run_invariant:
  assumes "\<And>i s s'. step w c i s = Some s' \<Longrightarrow> P s \<Longrightarrow> P s'"
  shows "P s \<Longrightarrow> run w c sched s = Some s' \<Longrightarrow> P s'"
proof (induction sched arbitrary: s)
  case Nil
  then show ?case by simp
next
  case (Cons i sched)
  then show ?case using assms by (auto split: option.splits)
qed

lemma counter_inv_init: "counter_inv init"
  by (simp add: counter_inv_def registered_def init_def)

lemma run_counter: "run w c sched init = Some s \<Longrightarrow> counter_inv s"
  using run_invariant [of w c counter_inv init sched s] step_counter counter_inv_init
  by blast

lemma build_stepE:
  assumes "build_step w c p pc s = Some (pc', s')"
  obtains
    (Done) "pc = BLoop []" "pc' = BReturned" "s' = done_tree s"
  | (Exit) v vs out err where "pc = BLoop (v # vs)" "pc' = pc"
      "getOrganizationMetrics w c v = Exit1 out err"
      "s' = exit_with 1 out err (sent (GetOrganization (username c) (password c) v) s)"
  | (Fetch) v vs out byteArray where "pc = BLoop (v # vs)" "pc' = BLock (length (heap s)) vs"
      "getOrganizationMetrics w c v = Return out byteArray"
      "s' = alloc (new_node (fst (unmarshalOrganization w byteArray zero_organization)))
              (print out (sent (GetOrganization (username c) (password c) v) s))"
  | (Lock) n vs where "pc = BLock n vs" "pc' = BAppend n vs" "\<not> mux (heap s ! p)"
      "s' = modify p (\<lambda>x. x\<lparr>mux := True\<rparr>) s"
  | (Append) n vs where "pc = BAppend n vs" "pc' = BUnlock n vs"
      "s' = modify p (\<lambda>x. x\<lparr>Children := Children x @ [n]\<rparr>) s"
  | (Unlock) n vs where "pc = BUnlock n vs" "pc' = BAdd n vs"
      "s' = modify p (\<lambda>x. x\<lparr>mux := False\<rparr>) s"
  | (Add) n vs where "pc = BAdd n vs" "pc' = BGo n vs" "s' = s\<lparr>g_tree := g_tree s + 1\<rparr>"
  | (Go) n vs where "pc = BGo n vs" "pc' = BLoop vs"
      "s' = s\<lparr>frames := frames s @ [BuildOrgTree n (BLoop (ids_at (heap s) n))]\<rparr>"
  using assms
  by (cases "(w, c, p, pc, s)" rule: build_step.cases)
     (auto simp: Let_def split: outcome.splits if_splits)

lemma node_ok_cong:
  assumes "node_ok w c h a" and "a < length h" and "length h \<le> length h'"
    and "Children (h' ! a) = Children (h ! a)"
    and "\<forall>b<length h. org_at h' b = org_at h b"
  shows "node_ok w c h' a"
  using assms unfolding node_ok_def by auto

lemma pc_ok_cong:
  assumes "pc_ok w c h p pc" and "length h \<le> length h'" and "h' ! p = h ! p"
    and "\<And>n. pend pc = Some n \<Longrightarrow> h' ! n = h ! n"
  shows "pc_ok w c h' p pc"
  using assms unfolding pc_ok_def by (auto split: option.splits)

lemma drop_eq_ConsD:
  assumes "drop k xs = v # vs"
  shows "k < length xs \<and> xs ! k = v \<and> drop (Suc k) xs = vs"
proof -
  have k: "k < length xs" using assms by (cases "k < length xs") auto
  from assms have "hd (drop k xs) = v" by simp
  with k have "xs ! k = v" by (simp add: hd_drop_conv_nth)
  moreover have "drop (Suc k) xs = tl (drop k xs)" by (simp add: drop_Suc drop_tl)
  ultimately show ?thesis using k assms by simp
qed

lemma children_below:
  assumes "node_ok w c h p" and "x \<in> set (Children (h ! p))"
  shows "x < length h"
  using assms unfolding node_ok_def by (auto simp: in_set_conv_nth)

lemma build_step_effect:
  assumes st: "build_step w c p pc s = Some (pc', s')"
    and ok: "pc_ok w c (heap s) p pc"
    and nodes: "\<forall>a<length (heap s). node_ok w c (heap s) a"
  shows "length (heap s) \<le> length (heap s')"
    and "\<forall>a<length (heap s). a \<noteq> p \<longrightarrow> heap s' ! a = heap s ! a"
    and "org_at (heap s') p = org_at (heap s) p"
    and "pc_ok w c (heap s') p pc'"
    and "\<forall>a<length (heap s'). node_ok w c (heap s') a"
    and "mainpc s' = mainpc s"
    and "\<exists>new. frames s' = frames s @ new \<and> (\<forall>f\<in>set new. frame_ok w c (heap s') f) \<and>
           (\<forall>a. owns (BuildOrgTree p pc') a + sum_list (map (\<lambda>f. owns f a) new) =
                owns (BuildOrgTree p pc) a +
                (if length (heap s) \<le> a \<and> a < length (heap s') then 1 else 0))"
proof -
  from ok have p: "p < length (heap s)" by (simp add: pc_ok_def)
  with nodes have np: "node_ok w c (heap s) p" by simp
  show "length (heap s) \<le> length (heap s')"
    using st by (cases rule: build_stepE)
      (auto simp: done_tree_def exit_with_def sent_def alloc_def print_def modify_def)
  show "\<forall>a<length (heap s). a \<noteq> p \<longrightarrow> heap s' ! a = heap s ! a"
    using st by (cases rule: build_stepE)
      (auto simp: done_tree_def exit_with_def sent_def alloc_def print_def modify_def nth_append)
  show "org_at (heap s') p = org_at (heap s) p"
    using st p by (cases rule: build_stepE)
      (auto simp: done_tree_def exit_with_def sent_def alloc_def print_def modify_def nth_append)
  show "mainpc s' = mainpc s"
    using st by (cases rule: build_stepE)
      (auto simp: done_tree_def exit_with_def sent_def alloc_def print_def modify_def)
  show "pc_ok w c (heap s') p pc'"
    using st
  proof (cases rule: build_stepE)
    case Done
    with ok show ?thesis by (auto simp: pc_ok_def done_tree_def exit_with_def)
  next
    case (Exit v vs out err)
    with ok show ?thesis by (auto simp: pc_ok_def exit_with_def sent_def)
  next
    case (Fetch v vs out byteArray)
    with ok p children_below [OF np] show ?thesis
      by (auto simp: pc_ok_def alloc_def print_def sent_def nth_append new_node_def resolves_def)
  next
    case (Lock n vs)
    with ok show ?thesis by (auto simp: pc_ok_def modify_def)
  next
    case (Append n vs)
    with ok show ?thesis by (auto simp: pc_ok_def modify_def dest: drop_eq_ConsD)
  next
    case (Unlock n vs)
    with ok show ?thesis by (auto simp: pc_ok_def modify_def)
  next
    case (Add n vs)
    with ok show ?thesis by (auto simp: pc_ok_def)
  next
    case (Go n vs)
    with ok show ?thesis by (auto simp: pc_ok_def)
  qed
  show "\<forall>a<length (heap s'). node_ok w c (heap s') a"
    using st
  proof (cases rule: build_stepE)
    case Done
    with nodes show ?thesis by (auto simp: done_tree_def exit_with_def)
  next
    case (Exit v vs out err)
    with nodes show ?thesis by (auto simp: exit_with_def sent_def)
  next
    case (Fetch v vs out byteArray)
    have "node_ok w c (heap s') a" if "a < length (heap s')" for a
    proof (cases "a < length (heap s)")
      case True
      with nodes have "node_ok w c (heap s) a" by simp
      then show ?thesis
        by (rule node_ok_cong) (use True Fetch in \<open>auto simp: alloc_def print_def sent_def nth_append\<close>)
    next
      case False
      with that Fetch show ?thesis
        by (auto simp: node_ok_def alloc_def print_def sent_def nth_append new_node_def)
    qed
    then show ?thesis by simp
  next
    case (Lock n vs)
    have "node_ok w c (heap s') a" if "a < length (heap s')" for a
    proof -
      from that Lock have a: "a < length (heap s)" by (simp add: modify_def)
      with nodes have "node_ok w c (heap s) a" by simp
      then show ?thesis
        by (rule node_ok_cong) (use a p Lock in \<open>auto simp: modify_def nth_list_update\<close>)
    qed
    then show ?thesis by simp
  next
    case (Unlock n vs)
    have "node_ok w c (heap s') a" if "a < length (heap s')" for a
    proof -
      from that Unlock have a: "a < length (heap s)" by (simp add: modify_def)
      with nodes have "node_ok w c (heap s) a" by simp
      then show ?thesis
        by (rule node_ok_cong) (use a p Unlock in \<open>auto simp: modify_def nth_list_update\<close>)
    qed
    then show ?thesis by simp
  next
    case (Add n vs)
    with nodes show ?thesis by auto
  next
    case (Go n vs)
    with nodes show ?thesis by auto
  next
    case (Append n vs)
    from ok Append obtain v where n: "p < n" "n < length (heap s)"
      and below: "\<forall>x\<in>set (Children (heap s ! p)). x < n"
      and dr: "drop (length (Children (heap s ! p))) (ids_at (heap s) p) = v # vs"
      and res: "resolves w c v (org_at (heap s) n)"
      by (auto simp: pc_ok_def)
    from drop_eq_ConsD [OF dr] have k: "length (Children (heap s ! p)) < length (ids_at (heap s) p)"
      and v: "ids_at (heap s) p ! length (Children (heap s ! p)) = v" by simp_all
    have h': "heap s' = (heap s)[p := (heap s ! p)\<lparr>Children := Children (heap s ! p) @ [n]\<rparr>]"
      using Append by (simp add: modify_def)
    have orgs: "org_at (heap s') b = org_at (heap s) b" if "b < length (heap s)" for b
      using that p by (simp add: h' nth_list_update)
    have "node_ok w c (heap s') a" if "a < length (heap s')" for a
    proof (cases "a = p")
      case False
      from that have a: "a < length (heap s)" by (simp add: h')
      with nodes have "node_ok w c (heap s) a" by simp
      then show ?thesis
        by (rule node_ok_cong) (use a False orgs in \<open>auto simp: h'\<close>)
    next
      case True
      have ch: "Children (heap s' ! p) = Children (heap s ! p) @ [n]"
        using p by (simp add: h')
      from np have old: "\<forall>j<length (Children (heap s ! p)).
          p < Children (heap s ! p) ! j \<and> Children (heap s ! p) ! j < length (heap s) \<and>
          resolves w c (ids_at (heap s) p ! j) (org_at (heap s) (Children (heap s ! p) ! j))"
        and srt: "sorted_wrt (<) (Children (heap s ! p))"
        by (simp_all add: node_ok_def)
      show ?thesis
        unfolding True node_ok_def ch
        using k v n below res old srt orgs p
        by (auto simp: sorted_wrt_append nth_append less_Suc_eq h')
    qed
    then show ?thesis by simp
  qed
  show "\<exists>new. frames s' = frames s @ new \<and> (\<forall>f\<in>set new. frame_ok w c (heap s') f) \<and>
           (\<forall>a. owns (BuildOrgTree p pc') a + sum_list (map (\<lambda>f. owns f a) new) =
                owns (BuildOrgTree p pc) a +
                (if length (heap s) \<le> a \<and> a < length (heap s') then 1 else 0))"
    using st
  proof (cases rule: build_stepE)
    case (Go n vs)
    with ok have "frames s' = frames s @ [BuildOrgTree n (BLoop (ids_at (heap s) n))]"
      "frame_ok w c (heap s') (BuildOrgTree n (BLoop (ids_at (heap s) n)))"
      "heap s' = heap s" "p \<noteq> n"
      by (auto simp: pc_ok_def)
    with Go show ?thesis by auto
  next
    case (Fetch v vs out byteArray)
    then show ?thesis by (auto simp: alloc_def print_def sent_def)
  qed (auto simp: done_tree_def exit_with_def sent_def modify_def)
qed

lemma owns_other_zero:
  assumes "i < length fs" and "j < length fs" and "i \<noteq> j"
    and "sum_list (map (\<lambda>f. owns f a) fs) \<le> 1" and "1 \<le> owns (fs ! i) a"
  shows "owns (fs ! j) a = 0"
proof -
  have "owns Idle a = 0" by simp
  with sum_map_update [OF assms(1), of "\<lambda>f. owns f a" Idle] assms(4,5)
  have "sum_list (map (\<lambda>f. owns f a) (fs[i := Idle])) = 0" by linarith
  then have z: "\<forall>f\<in>set (fs[i := Idle]). owns f a = 0" by simp
  have "fs[i := Idle] ! j \<in> set (fs[i := Idle])"
    using assms(2) by (intro nth_mem) simp
  with assms(3) have "fs ! j \<in> set (fs[i := Idle])" by simp
  with z show ?thesis by blast
qed

lemma in_set_update_cases:
  assumes "f \<in> set (xs[i := x])"
  shows "f = x \<or> (\<exists>j<length xs. j \<noteq> i \<and> f = xs ! j)"
proof -
  from assms obtain j where j: "j < length xs" "f = xs[i := x] ! j"
    by (auto simp: in_set_conv_nth)
  then show ?thesis by (cases "j = i") auto
qed

lemma build_frame_steps:
  assumes "frame_step w c f s = Some (f', s1)" and "frame_ok w c (heap s) f"
  obtains p pc pc' where "f = BuildOrgTree p pc" "f' = BuildOrgTree p pc'"
    "build_step w c p pc s = Some (pc', s1)" "pc_ok w c (heap s) p pc" "1 \<le> reg f"
proof (cases f)
  case (BuildOrgTree p pc)
  with assms obtain pc' where st: "build_step w c p pc s = Some (pc', s1)"
    and f': "f' = BuildOrgTree p pc'"
    by (auto split: if_splits)
  from st have "pc \<noteq> BReturned" by auto
  then have "1 \<le> reg f" unfolding BuildOrgTree by (cases pc) auto
  with that BuildOrgTree st f' assms(2) show ?thesis by simp
qed (use assms in auto)

lemma frame_run_tree:
  assumes run: "frame_run w c i s = Some s'" and inv: "tree_inv w c s"
    and cnt: "counter_inv s" and call: "i = 0 \<longrightarrow> in_call s"
  shows "tree_inv w c s'"
proof -
  from run obtain f' s1 where i: "i < length (frames s)"
    and fs: "frame_step w c (frames s ! i) s = Some (f', s1)"
    and s': "s' = s1\<lparr>frames := (frames s1)[i := f']\<rparr>"
    by (auto simp: frame_run_def split: if_splits option.splits)
  from inv have fok: "\<forall>f\<in>set (frames s). frame_ok w c (heap s) f"
    and nodes: "\<forall>a<length (heap s). node_ok w c (heap s) a"
    and own: "\<forall>a. owners s a = (if a < length (heap s) then 1 else 0)"
    and root: "heap s \<noteq> [] \<longrightarrow> resolves w c (rootID c) (org_at (heap s) 0)"
    and mok: "main_ok s"
    by (simp_all add: tree_inv_def)
  from fok i have "frame_ok w c (heap s) (frames s ! i)" by simp
  from build_frame_steps [OF fs this] obtain p pc pc' where
    f: "frames s ! i = BuildOrgTree p pc" and f': "f' = BuildOrgTree p pc'"
    and bs: "build_step w c p pc s = Some (pc', s1)" and ok: "pc_ok w c (heap s) p pc"
    and regf: "1 \<le> reg (frames s ! i)"
    by blast
  note eff = build_step_effect [OF bs ok nodes]
  from eff(7) obtain new where fr: "frames s1 = frames s @ new"
    and newok: "\<forall>f\<in>set new. frame_ok w c (heap s1) f"
    and newown: "\<And>a. owns (BuildOrgTree p pc') a + sum_list (map (\<lambda>f. owns f a) new) =
                owns (BuildOrgTree p pc) a +
                (if length (heap s) \<le> a \<and> a < length (heap s1) then 1 else 0)"
    by blast
  from ok have p: "p < length (heap s)" by (simp add: pc_ok_def)
  have upd: "frames s' = (frames s)[i := f'] @ new"
    using i fr by (simp add: s' list_update_append)
  have hp: "heap s' = heap s1" by (simp add: s')
  have mp: "mainpc s' = mainpc s" using eff(6) by (simp add: s')
  have sum_le: "sum_list (map (\<lambda>f. owns f p) (frames s)) \<le> 1"
    using own [rule_format, of p] p by (simp add: owners_def)
  have other: "frame_ok w c (heap s1) (frames s ! j)" if j: "j < length (frames s)" "j \<noteq> i" for j
  proof (cases "frames s ! j")
    case Idle
    then show ?thesis by simp
  next
    case (GenerateApplications q qc)
    with fok j show ?thesis by (metis frame_ok.simps(3) nth_mem)
  next
    case (BuildOrgTree q qc)
    have z: "owns (frames s ! j) p = 0"
      by (rule owns_other_zero [OF i j(1) _ sum_le]) (use j f in auto)
    from fok j(1) BuildOrgTree have qok: "pc_ok w c (heap s) q qc"
      by (metis frame_ok.simps(2) nth_mem)
    have "pc_ok w c (heap s1) q qc"
    proof (rule pc_ok_cong [OF qok eff(1)])
      from z BuildOrgTree have "q \<noteq> p" by (auto split: if_splits)
      moreover from qok have "q < length (heap s)" by (simp add: pc_ok_def)
      ultimately show "heap s1 ! q = heap s ! q" using eff(2) by simp
    next
      fix n assume n: "pend qc = Some n"
      with z BuildOrgTree have "n \<noteq> p" by (auto split: if_splits)
      moreover from qok n have "n < length (heap s)" by (simp add: pc_ok_def)
      ultimately show "heap s1 ! n = heap s ! n" using eff(2) by simp
    qed
    with BuildOrgTree show ?thesis by simp
  qed
  have 1: "\<forall>f\<in>set (frames s'). frame_ok w c (heap s') f"
  proof
    fix g assume "g \<in> set (frames s')"
    then consider "g \<in> set new" | "g \<in> set ((frames s)[i := f'])" by (auto simp: upd)
    then show "frame_ok w c (heap s') g"
    proof cases
      case 1
      with newok show ?thesis by (simp add: hp)
    next
      case 2
      from in_set_update_cases [OF this] other eff(4) f' show ?thesis
        by (auto simp: hp)
    qed
  qed
  have 2: "\<forall>a<length (heap s'). node_ok w c (heap s') a"
    using eff(5) by (simp add: hp)
  have 3: "owners s' a = (if a < length (heap s') then 1 else 0)" for a
  proof -
    define e :: nat where "e = (if a < length (heap s) then 1 else 0)"
    define d :: nat where "d = (if length (heap s) \<le> a \<and> a < length (heap s1) then 1 else 0)"
    have A: "sum_list (map (\<lambda>f. owns f a) ((frames s)[i := f'])) + owns (frames s ! i) a =
          sum_list (map (\<lambda>f. owns f a) (frames s)) + owns f' a"
      by (rule sum_map_update [OF i])
    have B: "owns f' a + sum_list (map (\<lambda>f. owns f a) new) = owns (frames s ! i) a + d"
      unfolding f f' d_def by (rule newown)
    have C: "sum_list (map (\<lambda>f. owns f a) (frames s)) + main_owns (mainpc s) a = e"
      using own [rule_format, of a] by (simp only: owners_def e_def)
    have "owners s' a =
          sum_list (map (\<lambda>f. owns f a) ((frames s)[i := f'])) +
          sum_list (map (\<lambda>f. owns f a) new) + main_owns (mainpc s) a"
      by (simp only: owners_def upd mp map_append sum_list_append)
    with A B C have "owners s' a = e + d" by linarith
    also have "e + d = (if a < length (heap s') then 1 else 0)"
      using eff(1) by (auto simp: e_def d_def hp)
    finally show ?thesis .
  qed
  have 4: "heap s' \<noteq> [] \<longrightarrow> resolves w c (rootID c) (org_at (heap s') 0)"
  proof -
    from p have ne: "heap s \<noteq> []" by auto
    have "org_at (heap s1) 0 = org_at (heap s) 0"
    proof (cases "p = 0")
      case True
      with eff(3) show ?thesis by simp
    next
      case False
      with eff(2) ne show ?thesis by simp
    qed
    with root ne show ?thesis by (simp add: hp)
  qed
  have nidle: "frames s \<noteq> [Idle]" using f i by (cases "frames s") auto
  have nb: "\<not> before_call (mainpc s)" using cnt nidle by (auto simp: counter_inv_def)
  have g: "g_tree s \<noteq> 0"
  proof -
    from cnt have "g_tree s = int (sum_list (map reg (frames s)) + main_reg (mainpc s))"
      by (simp add: counter_inv_def registered_def)
    with reg_le_sum [OF i] regf show ?thesis by simp
  qed
  have f0: "frames s' ! 0 = (if i = 0 then f' else frames s ! 0)"
    using i by (auto simp: upd nth_append)
  have 5: "main_ok s'"
  proof (cases "mainpc s")
    case (MTreeBuild node)
    with mok f f' f0 show ?thesis
      by (auto simp: main_ok_def mp)
  next
    case (MTreeWait node)
    with call have "i \<noteq> 0" by (auto simp: in_call_def)
    with mok MTreeWait f0 show ?thesis by (auto simp: main_ok_def mp)
  next
    case (MGenAdd head)
    with mok g show ?thesis by (simp add: main_ok_def)
  qed (use nb in \<open>auto simp: main_ok_def mp\<close>)
  from 1 2 3 4 5 show ?thesis by (simp add: tree_inv_def)
qed

lemma main_step_tree:
  assumes st: "main_step w c s = Some s'" and inv: "tree_inv w c s" and cnt: "counter_inv s"
    and call: "\<not> in_call s" and b: "building (mainpc s')"
  shows "tree_inv w c s'"
proof (cases "mainpc s")
  case MFlags
  with st inv cnt show ?thesis
    by (auto simp: main_step_def tree_inv_def main_ok_def owners_def exit_with_def
        counter_inv_def split: if_splits)
next
  case MInitTree
  with cnt have fr: "frames s = [Idle]" by (simp add: counter_inv_def)
  from inv MInitTree have h: "heap s = []" by (simp add: tree_inv_def main_ok_def)
  show ?thesis
  proof (cases "getOrganizationMetrics w c (rootID c)")
    case (Exit1 out err)
    with st MInitTree inv show ?thesis
      by (auto simp: main_step_def tree_inv_def main_ok_def owners_def exit_with_def sent_def)
  next
    case (Return out byteArray)
    with st MInitTree fr h show ?thesis
      by (auto simp: main_step_def tree_inv_def main_ok_def owners_def sent_def print_def
          alloc_def new_node_def node_ok_def resolves_def)
  qed
next
  case (MTreeAdd node)
  with st have s': "s' = s\<lparr>g_tree := g_tree s + 1, mainpc := MTreeCall node\<rparr>"
    by (simp add: main_step_def)
  have "owners s' = owners s" by (rule ext) (simp add: owners_def s' MTreeAdd)
  with inv MTreeAdd show ?thesis by (auto simp: tree_inv_def main_ok_def s')
next
  case (MTreeCall node)
  with cnt have fr: "frames s = [Idle]" by (simp add: counter_inv_def)
  with st inv MTreeCall show ?thesis
    by (auto simp: main_step_def tree_inv_def main_ok_def owners_def pc_ok_def)
next
  case (MTreeBuild node)
  with st have s': "s' = s\<lparr>mainpc := MTreeWait node\<rparr>"
    by (simp add: main_step_def)
  have "owners s' = owners s" by (rule ext) (simp add: owners_def s' MTreeBuild)
  with inv MTreeBuild call show ?thesis
    by (auto simp: tree_inv_def main_ok_def in_call_def s')
next
  case (MTreeWait node)
  with st have s': "s' = s\<lparr>mainpc := MGenAdd node\<rparr>" and g: "g_tree s = 0"
    by (simp_all add: main_step_def split: if_splits)
  have "owners s' = owners s" by (rule ext) (simp add: owners_def s' MTreeWait)
  with inv MTreeWait g show ?thesis
    by (auto simp: tree_inv_def main_ok_def s')
next
  case (MGenAdd head)
  with st b show ?thesis by (auto simp: main_step_def)
next
  case (MGenCall head)
  with st b show ?thesis by (auto simp: main_step_def)
next
  case (MGen head)
  with st b show ?thesis by (auto simp: main_step_def)
next
  case (MGenWait head)
  with st b show ?thesis by (auto simp: main_step_def split: if_splits)
next
  case (MWriteTree head)
  with st b inv show ?thesis
    by (auto simp: main_step_def tree_inv_def main_ok_def owners_def exit_with_def
        split: option.splits sum.splits)
next
  case (MFlatten head)
  with st b inv show ?thesis
    by (auto simp: main_step_def tree_inv_def main_ok_def owners_def exit_with_def print_def
        Let_def split: option.splits sum.splits)
qed

lemma main_step_building:
  assumes "main_step w c s = Some s'" and "building (mainpc s')"
  shows "building (mainpc s)"
  using assms
  by (cases "mainpc s")
     (auto simp: main_step_def exit_with_def print_def Let_def
        split: if_splits option.splits sum.splits outcome.splits)

lemma frame_run_mainpc:
  assumes "frame_run w c i s = Some s'" and "counter_inv s"
  shows "mainpc s' = mainpc s"
proof -
  from assms(1) obtain f' s1 where i: "i < length (frames s)"
    and fs: "frame_step w c (frames s ! i) s = Some (f', s1)"
    and s': "s' = s1\<lparr>frames := (frames s1)[i := f']\<rparr>"
    by (auto simp: frame_run_def split: if_splits option.splits)
  from assms(2) have "g_tree s = int (sum_list (map reg (frames s)) + main_reg (mainpc s))"
    by (simp add: counter_inv_def registered_def)
  with reg_le_sum [OF i] have "int (reg (frames s ! i)) \<le> g_tree s" by simp
  from frame_step_counter [OF fs this] show ?thesis by (simp add: s')
qed

lemma step_inv:
  assumes "step w c i s = Some s'" and "inv w c s"
  shows "inv w c s'"
proof -
  from assms(2) have cnt: "counter_inv s" by (simp add: inv_def)
  from step_counter [OF assms(1) cnt] have cnt': "counter_inv s'" .
  have "tree_inv w c s'" if b: "building (mainpc s')"
  proof (cases "i = 0 \<and> \<not> in_call s")
    case True
    with assms(1) have ms: "main_step w c s = Some s'" by (simp add: step_def split: if_splits)
    from main_step_building [OF ms b] assms(2) have "tree_inv w c s" by (simp add: inv_def)
    from main_step_tree [OF ms this cnt _ b] True show ?thesis by simp
  next
    case False
    with assms(1) have fr: "frame_run w c i s = Some s'" by (auto simp: step_def split: if_splits)
    from frame_run_mainpc [OF fr cnt] b assms(2) have "tree_inv w c s" by (simp add: inv_def)
    from frame_run_tree [OF fr this cnt] False show ?thesis by auto
  qed
  with cnt' show ?thesis by (simp add: inv_def)
qed

lemma inv_init: "inv w c init"
  by (simp add: inv_def counter_inv_init)
     (simp add: tree_inv_def init_def main_ok_def owners_def)

lemma run_inv: "run w c sched init = Some s \<Longrightarrow> inv w c s"
  using run_invariant [of w c "inv w c" init sched s] step_inv inv_init by blast

section \<open>What the build guarantees\<close>

lemma reg_zero_returned:
  assumes "sum_list (map reg fs) = 0" and "BuildOrgTree p pc \<in> set fs"
  shows "pc = BReturned"
proof -
  from assms have "reg (BuildOrgTree p pc) = 0" by auto
  then show ?thesis by (cases pc) auto
qed

text \<open>
  C2. In every state the process reaches, whatever the schedule, the counter of the
  WaitGroup of InitTree equals \<^const>\<open>registered\<close>: one unit for every buildOrgTree call that
  has not run its \<^verbatim>\<open>g.Done()\<close> yet, one more for a call that has done \<^verbatim>\<open>g.Add(1)\<close> for a
  child it has not started yet, and one for the root between its \<^verbatim>\<open>g.Add(1)\<close> and its call.
  So the counter is positive while any call has not marked itself done, and \<^verbatim>\<open>g.Wait()\<close> in
  InitTree is passed only in a state where every call has returned.
\<close>

theorem wait_counts_registered_calls:
  assumes "run w c sched init = Some s"
  shows "g_tree s = int (registered s) \<and>
         (\<forall>p pc. BuildOrgTree p pc \<in> set (frames s) \<and> pc \<noteq> BReturned \<longrightarrow> 0 < g_tree s) \<and>
         (\<forall>node s'. mainpc s = MTreeWait node \<and> step w c 0 s = Some s' \<longrightarrow>
            (\<forall>p pc. BuildOrgTree p pc \<in> set (frames s) \<longrightarrow> pc = BReturned))"
proof -
  from run_counter [OF assms] have g: "g_tree s = int (registered s)"
    by (simp add: counter_inv_def)
  have pos: "0 < g_tree s" if "BuildOrgTree p pc \<in> set (frames s)" "pc \<noteq> BReturned" for p pc
  proof (rule ccontr)
    assume "\<not> 0 < g_tree s"
    with g have "sum_list (map reg (frames s)) = 0" unfolding registered_def by linarith
    from reg_zero_returned [OF this that(1)] that(2) show False by simp
  qed
  have "pc = BReturned"
    if "mainpc s = MTreeWait node" "step w c 0 s = Some s'" "BuildOrgTree p pc \<in> set (frames s)"
    for node s' p pc
  proof -
    from that(1,2) have "g_tree s = 0"
      by (auto simp: step_def in_call_def main_step_def split: if_splits)
    with pos [OF that(3)] show ?thesis by auto
  qed
  with g pos show ?thesis by blast
qed

theorem wait_counts_registered_calls_witness:
  "\<exists>s. run ex_world ex_config ex_sched_waiting init = Some s \<and>
       g_tree s = int (registered s) \<and> g_tree s = 2 \<and> mainpc s = MTreeWait 0 \<and>
       frames s = [BuildOrgTree 0 BReturned, BuildOrgTree 1 (BLoop []), BuildOrgTree 2 (BLoop [])] \<and>
       step ex_world ex_config 0 s = None"
proof -
  have "map_option (\<lambda>s. (g_tree s, mainpc s, frames s, step ex_world ex_config 0 s))
          (run ex_world ex_config ex_sched_waiting init) =
        Some (2, MTreeWait 0,
              [BuildOrgTree 0 BReturned, BuildOrgTree 1 (BLoop []), BuildOrgTree 2 (BLoop [])],
              None)"
    by code_simp
  then obtain s where r: "run ex_world ex_config ex_sched_waiting init = Some s"
    and v: "g_tree s = 2" "mainpc s = MTreeWait 0"
      "frames s = [BuildOrgTree 0 BReturned, BuildOrgTree 1 (BLoop []), BuildOrgTree 2 (BLoop [])]"
      "step ex_world ex_config 0 s = None"
    by auto
  from wait_counts_registered_calls [OF r] have "g_tree s = int (registered s)" by simp
  with r v show ?thesis by blast
qed

text \<open>
  C3. While InitTree runs and when it has returned (\<^const>\<open>building\<close>), a node whose
  buildOrgTree call has returned has one child per identifier of its payload: as many
  children as identifiers, no address twice, and the \<open>j\<close>-th child is a node of the heap
  that holds what the directory resolves the \<open>j\<close>-th identifier to.
\<close>

theorem returned_call_children_complete:
  assumes "run w c sched init = Some s" and "building (mainpc s)"
    and "BuildOrgTree p BReturned \<in> set (frames s)"
  shows "length (Children (heap s ! p)) = length (ids_at (heap s) p) \<and>
         distinct (Children (heap s ! p)) \<and>
         (\<forall>j < length (ids_at (heap s) p).
            Children (heap s ! p) ! j < length (heap s) \<and>
            resolves w c (ids_at (heap s) p ! j) (org_at (heap s) (Children (heap s ! p) ! j)))"
proof -
  from run_inv [OF assms(1)] assms(2) have t: "tree_inv w c s" by (simp add: inv_def)
  with assms(3) have ok: "pc_ok w c (heap s) p BReturned"
    by (auto simp: tree_inv_def)
  then have p: "p < length (heap s)"
    and le: "length (ids_at (heap s) p) \<le> length (Children (heap s ! p))"
    by (simp_all add: pc_ok_def)
  from t p have n: "node_ok w c (heap s) p" by (simp add: tree_inv_def)
  from n have "sorted_wrt (<) (Children (heap s ! p))" by (simp add: node_ok_def)
  then have "distinct (Children (heap s ! p))" by (simp add: strict_sorted_iff)
  with n le show ?thesis by (auto simp: node_ok_def)
qed

text \<open>
  C7, amended. At every moment of the build the child list of a node is in discovery order:
  its \<open>j\<close>-th entry holds what the directory resolves the \<open>j\<close>-th identifier of the node's
  payload to. The order in which the calls for the children finish plays no part.
\<close>

theorem children_in_discovery_order:
  assumes "run w c sched init = Some s" and "building (mainpc s)"
    and "a < length (heap s)" and "j < length (Children (heap s ! a))"
  shows "j < length (ids_at (heap s) a) \<and>
         resolves w c (ids_at (heap s) a ! j) (org_at (heap s) (Children (heap s ! a) ! j))"
proof -
  from run_inv [OF assms(1)] assms(2) have "tree_inv w c s" by (simp add: inv_def)
  with assms(3) have "node_ok w c (heap s) a" by (simp add: tree_inv_def)
  with assms(4) show ?thesis by (auto simp: node_ok_def)
qed

lemma ex_built:
  "map_option (\<lambda>s. (mainpc s, frames s, map Children (heap s), map BusinessOrganization (heap s)))
     (run ex_world ex_config ex_sched_built init) =
   Some (MGenAdd 0,
         [BuildOrgTree 0 BReturned, BuildOrgTree 1 BReturned, BuildOrgTree 2 BReturned],
         [[1, 2], [], []], [org_A, org_B, org_C])"
  by code_simp

theorem returned_call_children_complete_witness:
  "\<exists>s. run ex_world ex_config ex_sched_built init = Some s \<and> building (mainpc s) \<and>
       BuildOrgTree 0 BReturned \<in> set (frames s) \<and>
       ids_at (heap s) 0 = [''2'', ''3''] \<and> Children (heap s ! 0) = [1, 2] \<and>
       length (Children (heap s ! 0)) = length (ids_at (heap s) 0) \<and>
       resolves ex_world ex_config (ids_at (heap s) 0 ! 0) (org_at (heap s) (Children (heap s ! 0) ! 0)) \<and>
       resolves ex_world ex_config (ids_at (heap s) 0 ! 1) (org_at (heap s) (Children (heap s ! 0) ! 1))"
proof -
  from ex_built obtain s where r: "run ex_world ex_config ex_sched_built init = Some s"
    and v: "mainpc s = MGenAdd 0"
      "frames s = [BuildOrgTree 0 BReturned, BuildOrgTree 1 BReturned, BuildOrgTree 2 BReturned]"
      "map Children (heap s) = [[1, 2], [], []]"
      "map BusinessOrganization (heap s) = [org_A, org_B, org_C]"
    by auto
  from v(3) have c: "Children (heap s ! 0) = [1, 2]"
    by (metis length_map nth_Cons_0 nth_map length_greater_0_conv list.distinct(1))
  from v(4) have i: "ids_at (heap s) 0 = [''2'', ''3'']"
    by (metis length_map nth_Cons_0 nth_map length_greater_0_conv list.distinct(1) org_A_def
        organization.select_convs(3))
  have b: "building (mainpc s)" and f: "BuildOrgTree 0 BReturned \<in> set (frames s)"
    using v by simp_all
  note t = returned_call_children_complete [OF r b f]
  from t have len: "length (Children (heap s ! 0)) = length (ids_at (heap s) 0)" by simp
  from t have res: "resolves ex_world ex_config (ids_at (heap s) 0 ! j)
                      (org_at (heap s) (Children (heap s ! 0) ! j))"
    if "j < length (ids_at (heap s) 0)" for j
    using that by simp
  have "resolves ex_world ex_config (ids_at (heap s) 0 ! 0) (org_at (heap s) (Children (heap s ! 0) ! 0))"
    and "resolves ex_world ex_config (ids_at (heap s) 0 ! 1) (org_at (heap s) (Children (heap s ! 0) ! 1))"
    by (rule res, simp add: i)+
  with len c i r b f show ?thesis by blast
qed

theorem children_in_discovery_order_witness:
  "\<exists>s. run ex_world ex_config ex_sched_built init = Some s \<and> building (mainpc s) \<and>
       0 < length (heap s) \<and> 1 < length (Children (heap s ! 0)) \<and>
       ids_at (heap s) 0 = [''2'', ''3''] \<and> Children (heap s ! 0) = [1, 2] \<and>
       resolves ex_world ex_config (ids_at (heap s) 0 ! 1) (org_at (heap s) (Children (heap s ! 0) ! 1))"
proof -
  from ex_built obtain s where r: "run ex_world ex_config ex_sched_built init = Some s"
    and v: "mainpc s = MGenAdd 0"
      "map Children (heap s) = [[1, 2], [], []]"
      "map BusinessOrganization (heap s) = [org_A, org_B, org_C]"
    by auto
  from v(2) have c: "Children (heap s ! 0) = [1, 2]"
    by (metis length_map nth_Cons_0 nth_map length_greater_0_conv list.distinct(1))
  from v(3) have i: "ids_at (heap s) 0 = [''2'', ''3'']"
    by (metis length_map nth_Cons_0 nth_map length_greater_0_conv list.distinct(1) org_A_def
        organization.select_convs(3))
  from v(2) have l: "0 < length (heap s)" by auto
  have b: "building (mainpc s)" and j: "1 < length (Children (heap s ! 0))"
    using v c by simp_all
  from children_in_discovery_order [OF r b l j] c i r b l j show ?thesis by blast
qed

text \<open>
  C7, as stated, fails: in this run the call for the second child (identifier \<open>3\<close>, at
  address 2) finishes while the call for the first child (identifier \<open>2\<close>, at address 1) has
  not, and the child list of the root is in discovery order before and after.
\<close>

theorem children_order_not_completion_order:
  "map_option (\<lambda>s. (frames s, Children (heap s ! 0), map (ID \<circ> BusinessOrganization) (heap s)))
     (run ex_world ex_config (replicate 18 0 @ [2]) init) =
   Some ([BuildOrgTree 0 BReturned, BuildOrgTree 1 (BLoop []), BuildOrgTree 2 BReturned],
         [1, 2], [''1'', ''2'', ''3'']) \<and>
   map_option (\<lambda>s. (frames s, Children (heap s ! 0), SubOrganizationIds (BusinessOrganization (heap s ! 0))))
     (run ex_world ex_config (replicate 18 0 @ [2, 1]) init) =
   Some ([BuildOrgTree 0 BReturned, BuildOrgTree 1 BReturned, BuildOrgTree 2 BReturned],
         [1, 2], [''2'', ''3''])"
  by code_simp

lemma getOrganizationMetrics_decoder:
  "getOrganizationMetrics (w\<lparr>unmarshalOrganization := u\<rparr>) c v = getOrganizationMetrics w c v"
  by (simp add: getOrganizationMetrics_def)

lemma getDeployedArtifacts_decoder:
  "getDeployedArtifacts (w\<lparr>unmarshalOrganization := u\<rparr>) c v = getDeployedArtifacts w c v"
  by (simp add: getDeployedArtifacts_def)

lemma build_step_erased:
  "build_step (w\<lparr>unmarshalOrganization := \<lambda>b t. (fst (unmarshalOrganization w b t), e b t)\<rparr>) c p pc s =
   build_step w c p pc s"
  by (cases "(w, c, p, pc, s)" rule: build_step.cases)
     (simp_all add: getOrganizationMetrics_decoder Let_def split: outcome.splits)

lemma gen_step_erased:
  "gen_step (w\<lparr>unmarshalOrganization := u\<rparr>) c p pc s = gen_step w c p pc s"
  by (cases "(w, c, p, pc, s)" rule: gen_step.cases)
     (simp_all add: getDeployedArtifacts_decoder Let_def split: outcome.splits)

lemma frame_step_erased:
  "frame_step (w\<lparr>unmarshalOrganization := \<lambda>b t. (fst (unmarshalOrganization w b t), e b t)\<rparr>) c f s =
   frame_step w c f s"
  by (cases f) (simp_all add: build_step_erased gen_step_erased)

lemma main_step_erased:
  "main_step (w\<lparr>unmarshalOrganization := \<lambda>b t. (fst (unmarshalOrganization w b t), e b t)\<rparr>) c s =
   main_step w c s"
  by (simp add: main_step_def getOrganizationMetrics_decoder Let_def
      split: mainpc.splits outcome.splits option.splits sum.splits)

lemma step_erased:
  "step (w\<lparr>unmarshalOrganization := \<lambda>b t. (fst (unmarshalOrganization w b t), e b t)\<rparr>) c i s =
   step w c i s"
  by (simp add: step_def frame_run_def frame_step_erased main_step_erased)

lemma run_erased:
  "run (w\<lparr>unmarshalOrganization := \<lambda>b t. (fst (unmarshalOrganization w b t), e b t)\<rparr>) c sched s =
   run w c sched s"
  by (induction sched arbitrary: s) (simp_all add: step_erased split: option.splits)

text \<open>
  C10, amended. When \<^verbatim>\<open>json.Unmarshal\<close> reports an error for a body of the directory, the
  step that fetched it goes on as for any body: it makes the node from what the decoder left
  in the zero Organization and does not end the process; when that is the zero
  Organization, the call started for the node finds nothing to visit and runs its
  \<^verbatim>\<open>g.Done()\<close>. The same holds for the root in InitTree. And the errors the decoder reports
  have no effect at all: with any other error reports the process runs alike.
\<close>

theorem decode_error_dropped:
  assumes "getOrganizationMetrics w c v = Return out byteArray"
    and "unmarshalOrganization w byteArray zero_organization = (organization, False)"
  shows "build_step w c p (BLoop (v # vs)) s =
           Some (BLock (length (heap s)) vs,
                 alloc (new_node organization)
                   (print out (sent (GetOrganization (username c) (password c) v) s))) \<and>
         exited (alloc (new_node organization)
                   (print out (sent (GetOrganization (username c) (password c) v) s))) = exited s \<and>
         (organization = zero_organization \<longrightarrow>
            (\<forall>n s'. build_step w c n (BLoop (SubOrganizationIds organization)) s' =
                    Some (BReturned, done_tree s'))) \<and>
         (v = rootID c \<and> mainpc s = MInitTree \<longrightarrow>
            main_step w c s =
              Some ((alloc (new_node organization)
                       (print out (sent (GetOrganization (username c) (password c) v) s)))
                    \<lparr>mainpc := MTreeAdd (length (heap s))\<rparr>)) \<and>
         (\<forall>e sched s0.
            run (w\<lparr>unmarshalOrganization := \<lambda>b t. (fst (unmarshalOrganization w b t), e b t)\<rparr>)
              c sched s0 = run w c sched s0)"
proof (intro conjI allI impI)
  show "build_step w c p (BLoop (v # vs)) s =
           Some (BLock (length (heap s)) vs,
                 alloc (new_node organization)
                   (print out (sent (GetOrganization (username c) (password c) v) s)))"
    using assms by simp
  show "exited (alloc (new_node organization)
                   (print out (sent (GetOrganization (username c) (password c) v) s))) = exited s"
    by (simp add: alloc_def print_def sent_def)
  show "build_step w c n (BLoop (SubOrganizationIds organization)) s' = Some (BReturned, done_tree s')"
    if "organization = zero_organization" for n s'
    using that by (simp add: zero_organization_def)
  show "main_step w c s =
          Some ((alloc (new_node organization)
                   (print out (sent (GetOrganization (username c) (password c) v) s)))
                \<lparr>mainpc := MTreeAdd (length (heap s))\<rparr>)"
    if "v = rootID c \<and> mainpc s = MInitTree"
    using that assms by (simp add: main_step_def)
  show "run (w\<lparr>unmarshalOrganization := \<lambda>b t. (fst (unmarshalOrganization w b t), e b t)\<rparr>)
              c sched s0 = run w c sched s0" for e sched s0
    by (rule run_erased)
qed

theorem decode_error_dropped_witness:
  "getOrganizationMetrics ex_world ex_config_unknown_root ''9'' = Return [NonOKStatus 404] ''?'' \<and>
   unmarshalOrganization ex_world ''?'' zero_organization = (zero_organization, False) \<and>
   build_step ex_world ex_config_unknown_root 0 (BLoop [''9'']) init =
     Some (BLock 0 [],
           alloc (new_node zero_organization)
             (print [NonOKStatus 404] (sent (GetOrganization ''u'' ''p'' ''9'') init))) \<and>
   build_step ex_world ex_config_unknown_root 0 (BLoop (SubOrganizationIds zero_organization)) init =
     Some (BReturned, done_tree init)"
proof -
  have g: "getOrganizationMetrics ex_world ex_config_unknown_root ''9'' =
           Return [NonOKStatus 404] ''?''"
    by (simp add: getOrganizationMetrics_def ex_world_def ex_http_def ex_config_unknown_root_def
        ex_config_def)
  have u: "unmarshalOrganization ex_world ''?'' zero_organization = (zero_organization, False)"
    by (simp add: ex_world_def ex_unmarshalOrganization_def)
  note t = decode_error_dropped [OF g u, of 0 "[]" init]
  from t have "build_step ex_world ex_config_unknown_root 0 (BLoop [''9'']) init =
     Some (BLock 0 [],
           alloc (new_node zero_organization)
             (print [NonOKStatus 404] (sent (GetOrganization ''u'' ''p'' ''9'') init)))"
    by (simp add: ex_config_unknown_root_def ex_config_def init_def)
  moreover from t have
    "build_step ex_world ex_config_unknown_root 0 (BLoop (SubOrganizationIds zero_organization)) init =
     Some (BReturned, done_tree init)"
    by blast
  ultimately show ?thesis using g u by blast
qed

section \<open>InitTree returns the hierarchy\<close>

lemma resolves_unique: "resolves w c v org \<Longrightarrow> resolves w c v org' \<Longrightarrow> org = org'"
  by (auto simp: resolves_def split: outcome.splits)

lemma those_map_nth:
  assumes "length xs = length ys" and "\<And>j. j < length xs \<Longrightarrow> f (xs ! j) = Some (ys ! j)"
  shows "those (map f xs) = Some ys"
  using assms
proof (induction xs ys rule: list_induct2)
  case Nil
  then show ?case by simp
next
  case (Cons x xs y ys)
  from Cons.prems [of 0] have "f x = Some y" by simp
  moreover have "those (map f xs) = Some ys"
  proof (rule Cons.IH)
    fix j assume "j < length xs"
    with Cons.prems [of "Suc j"] show "f (xs ! j) = Some (ys ! j)" by simp
  qed
  ultimately show ?case by simp
qed

lemma tree_of_complete:
  assumes "complete w c h"
  shows "unfolds w c v t \<Longrightarrow> a < length h \<Longrightarrow> resolves w c v (org_at h a) \<Longrightarrow>
         length h - a \<le> n \<Longrightarrow> tree_of n h a = Some t"
proof (induction t arbitrary: v a n)
  case (Tree org ts)
  from Tree.prems(1) have r: "resolves w c v org"
    and sub: "list_all2 (unfolds w c) (SubOrganizationIds org) ts" by simp_all
  from resolves_unique [OF r Tree.prems(3)] have org: "org_at h a = org" by simp
  from Tree.prems(2,4) obtain m where n: "n = Suc m" by (cases n) auto
  from assms Tree.prems(2) have len: "length (Children (h ! a)) = length (ids_at h a)"
    and kids: "\<And>j. j < length (ids_at h a) \<Longrightarrow>
           a < Children (h ! a) ! j \<and> Children (h ! a) ! j < length h \<and>
           resolves w c (ids_at h a ! j) (org_at h (Children (h ! a) ! j))"
    by (simp_all add: complete_def)
  from sub have lts: "length ts = length (SubOrganizationIds org)"
    by (simp add: list_all2_lengthD)
  have "those (map (tree_of m h) (Children (h ! a))) = Some ts"
  proof (rule those_map_nth)
    show "length (Children (h ! a)) = length ts" using len lts org by simp
  next
    fix j assume j: "j < length (Children (h ! a))"
    with len have j': "j < length (ids_at h a)" by simp
    from j' lts org have "ts ! j \<in> set ts" by simp
    moreover from sub j' org have "unfolds w c (ids_at h a ! j) (ts ! j)"
      by (simp add: list_all2_conv_all_nth)
    moreover from kids [OF j'] Tree.prems(4) n have "length h - Children (h ! a) ! j \<le> m"
      by linarith
    ultimately show "tree_of m h (Children (h ! a) ! j) = Some (ts ! j)"
      using kids [OF j'] by (intro Tree.IH) auto
  qed
  with Tree.prems(2) org show ?case by (simp add: n)
qed

lemma owner_exists:
  assumes "sum_list (map (\<lambda>f. owns f a) fs) = 1"
  shows "\<exists>f\<in>set fs. 1 \<le> owns f a"
proof (rule ccontr)
  assume "\<not> ?thesis"
  then have "\<forall>f\<in>set fs. owns f a = 0" by auto
  then have "sum_list (map (\<lambda>f. owns f a) fs) = 0" by simp
  with assms show False by simp
qed

lemma built_complete:
  assumes "run w c sched init = Some s" and "mainpc s = MGenAdd head"
  shows "complete w c (heap s) \<and> head = 0 \<and> heap s \<noteq> [] \<and>
         resolves w c (rootID c) (org_at (heap s) 0)"
proof -
  from run_inv [OF assms(1)] assms(2) have cnt: "counter_inv s" and t: "tree_inv w c s"
    by (simp_all add: inv_def)
  from t assms(2) have h0: "head = 0" and g: "g_tree s = 0"
    and f0: "frames s ! 0 = BuildOrgTree 0 BReturned"
    by (simp_all add: tree_inv_def main_ok_def)
  from cnt g have z: "sum_list (map reg (frames s)) = 0"
    unfolding counter_inv_def registered_def by linarith
  from cnt have "frames s \<noteq> []" by (simp add: counter_inv_def)
  with f0 have "BuildOrgTree 0 BReturned \<in> set (frames s)"
    by (metis length_greater_0_conv nth_mem)
  with t have "pc_ok w c (heap s) 0 BReturned" by (auto simp: tree_inv_def)
  then have ne: "heap s \<noteq> []" by (auto simp: pc_ok_def)
  have "length (Children (heap s ! a)) = length (ids_at (heap s) a) \<and>
        (\<forall>j<length (ids_at (heap s) a).
           a < Children (heap s ! a) ! j \<and> Children (heap s ! a) ! j < length (heap s) \<and>
           resolves w c (ids_at (heap s) a ! j) (org_at (heap s) (Children (heap s ! a) ! j)))"
    if a: "a < length (heap s)" for a
  proof -
    from t a assms(2) have "sum_list (map (\<lambda>f. owns f a) (frames s)) = 1"
      by (simp add: tree_inv_def owners_def)
    from owner_exists [OF this] obtain f where f: "f \<in> set (frames s)" "1 \<le> owns f a" by blast
    from f(2) obtain p pc where fp: "f = BuildOrgTree p pc" by (cases f) auto
    with f(1) z have pc: "pc = BReturned" using reg_zero_returned by blast
    with f(2) fp have "p = a" by (auto split: if_splits)
    with f(1) fp pc t have "pc_ok w c (heap s) a BReturned" by (auto simp: tree_inv_def)
    then have "length (ids_at (heap s) a) \<le> length (Children (heap s ! a))"
      by (simp add: pc_ok_def)
    moreover from t a have "node_ok w c (heap s) a" by (simp add: tree_inv_def)
    ultimately show ?thesis by (auto simp: node_ok_def)
  qed
  then have "complete w c (heap s)" by (simp add: complete_def)
  with h0 ne t show ?thesis by (simp add: tree_inv_def)
qed

lemma built_tree:
  assumes "run w c sched init = Some s" and "mainpc s = MGenAdd head"
    and "unfolds w c (rootID c) t"
  shows "tree_of (length (heap s)) (heap s) head = Some t"
proof -
  from built_complete [OF assms(1,2)] have c: "complete w c (heap s)" and h: "head = 0"
    and ne: "heap s \<noteq> []" and r: "resolves w c (rootID c) (org_at (heap s) 0)"
    by simp_all
  from tree_of_complete [OF c assms(3) _ r, of "length (heap s)"] ne h show ?thesis by simp
qed

lemma unfolds_unique: "unfolds w c v t \<Longrightarrow> unfolds w c v t' \<Longrightarrow> t = t'"
proof (induction t arbitrary: v t')
  case (Tree org ts)
  obtain org' ts' where t': "t' = Tree org' ts'" by (cases t')
  from Tree.prems t' have o: "org' = org" by (auto dest: resolves_unique)
  from Tree.prems t' o have a: "list_all2 (unfolds w c) (SubOrganizationIds org) ts"
    and b: "list_all2 (unfolds w c) (SubOrganizationIds org) ts'" by simp_all
  have "ts = ts'"
  proof (rule nth_equalityI)
    show "length ts = length ts'" using a b by (simp add: list_all2_lengthD [symmetric])
  next
    fix j assume j: "j < length ts"
    with a b have "unfolds w c (SubOrganizationIds org ! j) (ts ! j)"
      "unfolds w c (SubOrganizationIds org ! j) (ts' ! j)"
      by (simp_all add: list_all2_conv_all_nth)
    with j show "ts ! j = ts' ! j" by (intro Tree.IH) auto
  qed
  with t' o show ?case by simp
qed

lemma hsize_eq: "unfolds w c v t \<Longrightarrow> hsize w c v = length (orgs t)"
proof -
  assume u: "unfolds w c v t"
  then have "(THE t. unfolds w c v t) = t"
    by (intro the_equality) (auto dest: unfolds_unique)
  then show ?thesis by (simp add: hsize_def)
qed

lemma hsize_unfold:
  assumes "unfoldable w c v" and "resolves w c v org"
  shows "hsize w c v = Suc (osize w c org)"
    and "\<forall>u\<in>set (SubOrganizationIds org). unfoldable w c u"
proof -
  from assms(1) obtain t where t: "unfolds w c v t" by (auto simp: unfoldable_def)
  obtain org' ts where tt: "t = Tree org' ts" by (cases t)
  with t assms(2) have o: "org' = org" by (auto dest: resolves_unique)
  with t tt have sub: "list_all2 (unfolds w c) (SubOrganizationIds org) ts" by simp
  have "map (hsize w c) (SubOrganizationIds org) = map (\<lambda>t. length (orgs t)) ts"
  proof (rule nth_equalityI)
    show "length (map (hsize w c) (SubOrganizationIds org)) = length (map (\<lambda>t. length (orgs t)) ts)"
      using sub by (simp add: list_all2_lengthD)
  next
    fix j assume "j < length (map (hsize w c) (SubOrganizationIds org))"
    with sub show "map (hsize w c) (SubOrganizationIds org) ! j = map (\<lambda>t. length (orgs t)) ts ! j"
      by (simp add: list_all2_conv_all_nth hsize_eq)
  qed
  then have "osize w c org = length (concat (map orgs ts))"
    by (simp add: osize_def length_concat comp_def)
  with hsize_eq [OF t] tt show "hsize w c v = Suc (osize w c org)" by simp
  show "\<forall>u\<in>set (SubOrganizationIds org). unfoldable w c u"
  proof
    fix u assume "u \<in> set (SubOrganizationIds org)"
    then obtain j where "j < length (SubOrganizationIds org)" "u = SubOrganizationIds org ! j"
      by (auto simp: in_set_conv_nth)
    with sub have "unfolds w c u (ts ! j)" by (simp add: list_all2_conv_all_nth)
    then show "unfoldable w c u" by (auto simp: unfoldable_def)
  qed
qed

lemma unfoldable_resolves:
  assumes "unfoldable w c v"
  obtains out byteArray where "getOrganizationMetrics w c v = Return out byteArray"
    "resolves w c v (fst (unmarshalOrganization w byteArray zero_organization))"
proof -
  from assms obtain t where t: "unfolds w c v t" by (auto simp: unfoldable_def)
  obtain org ts where "t = Tree org ts" by (cases t)
  with t have "resolves w c v org" by simp
  with that show ?thesis by (auto simp: resolves_def split: outcome.splits)
qed

lemma build_step_orgs:
  assumes st: "build_step w c p pc s = Some (pc', s')"
    and ok: "pc_ok w c (heap s) p pc"
    and nodes: "\<forall>a<length (heap s). node_ok w c (heap s) a"
    and a: "a < length (heap s)"
  shows "org_at (heap s') a = org_at (heap s) a"
  using build_step_effect(2,3) [OF st ok nodes] a by (cases "a = p") auto

lemma build_step_live:
  assumes st: "build_step w c p pc s = Some (pc', s')"
    and ok: "pc_ok w c (heap s) p pc"
    and nodes: "\<forall>a<length (heap s). node_ok w c (heap s) a"
    and lv: "live w c s" and g: "1 \<le> g_tree s"
  shows "live w c s' \<and>
         (\<exists>new. frames s' = frames s @ new \<and>
            work w c (heap s') (BuildOrgTree p pc') + sum_list (map (work w c (heap s')) new)
              < work w c (heap s) (BuildOrgTree p pc))"
proof -
  from ok have p: "p < length (heap s)" by (simp add: pc_ok_def)
  note orgs = build_step_orgs [OF st ok nodes]
  from lv have ex: "exited s = None"
    and un: "\<And>a v. a < length (heap s) \<Longrightarrow> v \<in> set (ids_at (heap s) a) \<Longrightarrow> unfoldable w c v"
    by (simp_all add: live_def)
  have pend_org: "org_at (heap s') n = org_at (heap s) n" if "pend pc = Some n" for n
    using that ok by (intro orgs) (simp add: pc_ok_def)
  from st show ?thesis
  proof (cases rule: build_stepE)
    case Done
    with lv g show ?thesis by (simp add: live_def done_tree_def)
  next
    case (Exit v vs out err)
    from ok Exit have "drop (length (Children (heap s ! p))) (ids_at (heap s) p) = v # vs"
      by (simp add: pc_ok_def)
    then have "v \<in> set (ids_at (heap s) p)" by (metis in_set_dropD list.set_intros(1))
    from un [OF p this] Exit(3) show ?thesis by (auto elim: unfoldable_resolves)
  next
    case (Fetch v vs out byteArray)
    let ?org = "fst (unmarshalOrganization w byteArray zero_organization)"
    from ok Fetch have "drop (length (Children (heap s ! p))) (ids_at (heap s) p) = v # vs"
      by (simp add: pc_ok_def)
    then have "v \<in> set (ids_at (heap s) p)" by (metis in_set_dropD list.set_intros(1))
    from un [OF p this] have uv: "unfoldable w c v" .
    from Fetch(3) have res: "resolves w c v ?org" by (simp add: resolves_def)
    note hs = hsize_unfold [OF uv res]
    have h': "heap s' = heap s @ [new_node ?org]" and e': "exited s' = exited s"
      and f': "frames s' = frames s"
      using Fetch by (simp_all add: alloc_def print_def sent_def)
    have "unfoldable w c u" if "a < length (heap s')" "u \<in> set (ids_at (heap s') a)" for a u
    proof (cases "a < length (heap s)")
      case True
      with that un [of a u] show ?thesis by (simp add: h' nth_append)
    next
      case False
      with that hs(2) show ?thesis by (auto simp: h' nth_append new_node_def)
    qed
    with ex e' have "live w c s'" by (simp add: live_def)
    moreover have "work w c (heap s') (BuildOrgTree p pc') < work w c (heap s) (BuildOrgTree p pc)"
      using Fetch(1,2) hs(1) by (simp add: h' new_node_def)
    ultimately show ?thesis using f' by simp
  next
    case (Lock n vs)
    with lv orgs pend_org [of n] show ?thesis by (auto simp: live_def modify_def)
  next
    case (Append n vs)
    with lv orgs pend_org [of n] show ?thesis by (auto simp: live_def modify_def)
  next
    case (Unlock n vs)
    with lv orgs pend_org [of n] show ?thesis by (auto simp: live_def modify_def)
  next
    case (Add n vs)
    with lv show ?thesis by (auto simp: live_def)
  next
    case (Go n vs)
    with lv show ?thesis by (auto simp: live_def osize_def)
  qed
qed

lemma work_heap_cong:
  assumes "frame_ok w c h f" and "\<forall>a<length h. org_at h' a = org_at h a"
  shows "work w c h' f = work w c h f"
proof (cases f)
  case (BuildOrgTree p pc)
  with assms show ?thesis by (cases "pend pc") (auto simp: pc_ok_def)
qed simp_all

lemma frame_run_live:
  assumes run: "frame_run w c i s = Some s'" and inv: "tree_inv w c s"
    and cnt: "counter_inv s" and lv: "live w c s"
  shows "live w c s' \<and> effort w c s' < effort w c s"
proof -
  from run obtain f' s1 where i: "i < length (frames s)"
    and fs: "frame_step w c (frames s ! i) s = Some (f', s1)"
    and s': "s' = s1\<lparr>frames := (frames s1)[i := f']\<rparr>"
    by (auto simp: frame_run_def split: if_splits option.splits)
  from inv have fok: "\<forall>f\<in>set (frames s). frame_ok w c (heap s) f"
    and nodes: "\<forall>a<length (heap s). node_ok w c (heap s) a"
    by (simp_all add: tree_inv_def)
  from fok i have "frame_ok w c (heap s) (frames s ! i)" by simp
  from build_frame_steps [OF fs this] obtain p pc pc' where
    f: "frames s ! i = BuildOrgTree p pc" and f': "f' = BuildOrgTree p pc'"
    and bs: "build_step w c p pc s = Some (pc', s1)" and ok: "pc_ok w c (heap s) p pc"
    and regf: "1 \<le> reg (frames s ! i)"
    by blast
  from cnt have "g_tree s = int (sum_list (map reg (frames s)) + main_reg (mainpc s))"
    by (simp add: counter_inv_def registered_def)
  with reg_le_sum [OF i] regf have g: "1 \<le> g_tree s" by simp
  from build_step_live [OF bs ok nodes lv g] obtain new where l1: "live w c s1"
    and fr: "frames s1 = frames s @ new"
    and less: "work w c (heap s1) (BuildOrgTree p pc') + sum_list (map (work w c (heap s1)) new)
              < work w c (heap s) (BuildOrgTree p pc)"
    by blast
  have orgs: "\<forall>a<length (heap s). org_at (heap s1) a = org_at (heap s) a"
    using build_step_orgs [OF bs ok nodes] by simp
  have same: "map (work w c (heap s1)) (frames s) = map (work w c (heap s)) (frames s)"
    using fok orgs by (auto intro: work_heap_cong)
  have upd: "frames s' = (frames s)[i := f'] @ new"
    using i fr by (simp add: s' list_update_append)
  have mp: "mainpc s' = mainpc s" using build_step_effect(6) [OF bs ok nodes] by (simp add: s')
  have A: "sum_list (map (work w c (heap s1)) ((frames s)[i := f'])) +
           work w c (heap s1) (frames s ! i) =
           sum_list (map (work w c (heap s1)) (frames s)) + work w c (heap s1) f'"
    by (rule sum_map_update [OF i])
  have B: "work w c (heap s1) (frames s ! i) = work w c (heap s) (frames s ! i)"
    using fok i orgs by (intro work_heap_cong) auto
  have nidle: "frames s \<noteq> [Idle]" using f i by (cases "frames s") auto
  have nb: "\<not> before_call (mainpc s)" using cnt nidle by (auto simp: counter_inv_def)
  then have mw: "mainw w c (heap s1) (mainpc s) = mainw w c (heap s) (mainpc s)"
    by (cases "mainpc s") simp_all
  have "effort w c s' =
        sum_list (map (work w c (heap s1)) ((frames s)[i := f'])) +
        sum_list (map (work w c (heap s1)) new) + mainw w c (heap s) (mainpc s)"
    unfolding effort_def upd mp by (simp add: s' mw)
  moreover have "effort w c s =
        sum_list (map (work w c (heap s1)) (frames s)) + mainw w c (heap s) (mainpc s)"
    by (simp only: effort_def same)
  ultimately have "effort w c s' < effort w c s"
    using A B less unfolding f f' by linarith
  moreover from l1 have "live w c s'" by (simp add: live_def s')
  ultimately show ?thesis by simp
qed

lemma frame_can_step:
  assumes "pc_ok w c (heap s) p pc" and "pc \<noteq> BReturned"
  shows "\<exists>x. frame_step w c (BuildOrgTree p pc) s = Some x"
proof -
  from assms(1) have p: "p < length (heap s)" and m: "mux (heap s ! p) = locked pc"
    by (simp_all add: pc_ok_def)
  have "\<exists>y. build_step w c p pc s = Some y"
    using assms(2) m
    by (cases "(w, c, p, pc, s)" rule: build_step.cases)
       (auto simp: Let_def split: outcome.splits)
  with p show ?thesis by auto
qed

lemma main_step_live:
  assumes st: "main_step w c s = Some s'" and inv: "tree_inv w c s" and cnt: "counter_inv s"
    and lv: "live w c s" and wp: "well_posed w c" and call: "\<not> in_call s"
    and b: "building (mainpc s)" and ng: "\<forall>head. mainpc s \<noteq> MGenAdd head"
  shows "live w c s' \<and> effort w c s' < effort w c s \<and> building (mainpc s')"
proof (cases "mainpc s")
  case MFlags
  with st wp have "s' = s\<lparr>mainpc := MInitTree\<rparr>"
    by (simp add: main_step_def well_posed_def)
  with lv MFlags show ?thesis by (simp add: live_def effort_def)
next
  case MInitTree
  with cnt have fr: "frames s = [Idle]" by (simp add: counter_inv_def)
  from inv MInitTree have h: "heap s = []" by (simp add: tree_inv_def main_ok_def)
  from wp have u: "unfoldable w c (rootID c)" by (simp add: well_posed_def)
  from u obtain out byteArray where
    g: "getOrganizationMetrics w c (rootID c) = Return out byteArray"
    and r: "resolves w c (rootID c) (fst (unmarshalOrganization w byteArray zero_organization))"
    by (rule unfoldable_resolves)
  note hs = hsize_unfold [OF u r]
  from st MInitTree g h have s': "heap s' = [new_node (fst (unmarshalOrganization w byteArray zero_organization))]"
    "frames s' = frames s" "exited s' = exited s" "mainpc s' = MTreeAdd 0"
    by (auto simp: main_step_def alloc_def print_def sent_def)
  with lv hs fr MInitTree show ?thesis
    by (simp add: live_def effort_def new_node_def)
next
  case (MTreeAdd node)
  with st have "s' = s\<lparr>g_tree := g_tree s + 1, mainpc := MTreeCall node\<rparr>"
    by (simp add: main_step_def)
  with lv MTreeAdd show ?thesis by (simp add: live_def effort_def)
next
  case (MTreeCall node)
  with cnt have fr: "frames s = [Idle]" by (simp add: counter_inv_def)
  with st MTreeCall lv show ?thesis
    by (auto simp: main_step_def live_def effort_def osize_def)
next
  case (MTreeBuild node)
  with st have "s' = s\<lparr>mainpc := MTreeWait node\<rparr>" by (simp add: main_step_def)
  with lv MTreeBuild show ?thesis by (simp add: live_def effort_def)
next
  case (MTreeWait node)
  with st have "s' = s\<lparr>mainpc := MGenAdd node\<rparr>"
    by (simp add: main_step_def split: if_splits)
  with lv MTreeWait show ?thesis by (simp add: live_def effort_def)
qed (use b ng in auto)

lemma step_live:
  assumes st: "step w c i s = Some s'" and I: "inv w c s" and lv: "live w c s"
    and wp: "well_posed w c" and b: "building (mainpc s)"
    and ng: "\<forall>head. mainpc s \<noteq> MGenAdd head"
  shows "live w c s' \<and> effort w c s' < effort w c s \<and> building (mainpc s')"
proof -
  from I b have cnt: "counter_inv s" and t: "tree_inv w c s" by (simp_all add: inv_def)
  show ?thesis
  proof (cases "i = 0 \<and> \<not> in_call s")
    case True
    with st have "main_step w c s = Some s'" by (simp add: step_def split: if_splits)
    from main_step_live [OF this t cnt lv wp _ b ng] True show ?thesis by simp
  next
    case False
    with st have fr: "frame_run w c i s = Some s'" by (auto simp: step_def split: if_splits)
    from frame_run_live [OF fr t cnt lv] frame_run_mainpc [OF fr cnt] b show ?thesis by simp
  qed
qed

lemma build_progress:
  assumes I: "inv w c s" and lv: "live w c s" and wp: "well_posed w c"
    and b: "building (mainpc s)" and ng: "\<forall>head. mainpc s \<noteq> MGenAdd head"
  shows "\<exists>i s'. step w c i s = Some s'"
proof -
  from I b have cnt: "counter_inv s" and inv: "tree_inv w c s" by (simp_all add: inv_def)
  from lv have ex: "exited s = None" by (simp add: live_def)
  from inv have fok: "\<forall>f\<in>set (frames s). frame_ok w c (heap s) f" by (simp add: tree_inv_def)
  have frame_case: ?thesis if i: "i < length (frames s)" "frames s ! i = BuildOrgTree p q"
    "q \<noteq> BReturned" "i = 0 \<longrightarrow> in_call s" for i p q
  proof -
    from fok i(1,2) have "pc_ok w c (heap s) p q" by (metis frame_ok.simps(2) nth_mem)
    from frame_can_step [OF this i(3)] i(1,2) obtain s' where fr: "frame_run w c i s = Some s'"
      by (auto simp: frame_run_def split: prod.splits)
    with ex i(4) have "step w c i s = Some s'" by (auto simp: step_def)
    then show ?thesis by blast
  qed
  have main_case: ?thesis if "\<not> in_call s" "\<exists>s'. main_step w c s = Some s'"
    using that ex by (auto simp: step_def)
  show ?thesis
  proof (cases "mainpc s")
    case (MTreeBuild node)
    show ?thesis
    proof (cases "in_call s")
      case True
      from inv MTreeBuild obtain q where q: "frames s ! 0 = BuildOrgTree 0 q" "node = 0"
        by (auto simp: tree_inv_def main_ok_def)
      with True MTreeBuild have "q \<noteq> BReturned" by (auto simp: in_call_def)
      moreover from cnt have "0 < length (frames s)" by (simp add: counter_inv_def)
      ultimately show ?thesis using q True by (intro frame_case [of 0 0 q]) auto
    next
      case False
      with MTreeBuild show ?thesis by (intro main_case) (auto simp: main_step_def)
    qed
  next
    case (MTreeWait node)
    then have nc: "\<not> in_call s" by (simp add: in_call_def)
    show ?thesis
    proof (cases "g_tree s = 0")
      case True
      with MTreeWait nc show ?thesis by (intro main_case) (auto simp: main_step_def)
    next
      case False
      from cnt MTreeWait have "g_tree s = int (sum_list (map reg (frames s)))"
        by (simp add: counter_inv_def registered_def)
      with False have "sum_list (map reg (frames s)) \<noteq> 0" by simp
      then obtain f where f: "f \<in> set (frames s)" "reg f \<noteq> 0" by auto
      then obtain i where i: "i < length (frames s)" "frames s ! i = f"
        by (auto simp: in_set_conv_nth)
      from f(2) obtain p q where pq: "f = BuildOrgTree p q" "q \<noteq> BReturned"
        by (cases f rule: reg.cases) auto
      from inv MTreeWait have f0: "frames s ! 0 = BuildOrgTree 0 BReturned"
        by (simp add: tree_inv_def main_ok_def)
      have "i \<noteq> 0"
      proof
        assume "i = 0"
        with i pq f0 show False by simp
      qed
      with i pq show ?thesis by (intro frame_case [of i p q]) auto
    qed
  next
    case (MGenAdd head)
    with ng show ?thesis by simp
  qed (use b in \<open>auto intro!: main_case simp: in_call_def main_step_def Let_def
         split: outcome.splits\<close>)
qed

lemma step_leaves_build:
  assumes "step w c i s = Some s'" and "counter_inv s" and "\<not> building (mainpc s)"
  shows "\<not> building (mainpc s')"
proof (cases "i = 0 \<and> \<not> in_call s")
  case True
  with assms(1) have "main_step w c s = Some s'" by (simp add: step_def split: if_splits)
  with assms(3) show ?thesis using main_step_building by blast
next
  case False
  with assms(1) have "frame_run w c i s = Some s'" by (auto simp: step_def split: if_splits)
  from frame_run_mainpc [OF this assms(2)] assms(3) show ?thesis by simp
qed

lemma run_leaves_build:
  "run w c sched s = Some s' \<Longrightarrow> counter_inv s \<Longrightarrow> \<not> building (mainpc s) \<Longrightarrow>
   \<not> building (mainpc s')"
proof (induction sched arbitrary: s)
  case Nil
  then show ?case by simp
next
  case (Cons i sched)
  from Cons.prems(1) obtain s1 where st: "step w c i s = Some s1"
    and r: "run w c sched s1 = Some s'" by (auto split: option.splits)
  from step_counter [OF st Cons.prems(2)] step_leaves_build [OF st Cons.prems(2,3)]
  show ?case using Cons.IH [OF r] by simp
qed

lemma step_after_return:
  assumes "step w c i s = Some s'" and "inv w c s" and "mainpc s = MGenAdd head"
  shows "\<not> building (mainpc s')"
proof (cases "i = 0 \<and> \<not> in_call s")
  case True
  with assms(1) have "main_step w c s = Some s'" by (simp add: step_def split: if_splits)
  with assms(3) show ?thesis by (auto simp: main_step_def)
next
  case False
  with assms(1) have fr: "frame_run w c i s = Some s'" by (auto simp: step_def split: if_splits)
  from assms(2,3) have cnt: "counter_inv s" and t: "tree_inv w c s" by (simp_all add: inv_def)
  from fr obtain f' s1 where i: "i < length (frames s)"
    and fs: "frame_step w c (frames s ! i) s = Some (f', s1)"
    by (auto simp: frame_run_def split: if_splits option.splits)
  from t i have "frame_ok w c (heap s) (frames s ! i)" by (simp add: tree_inv_def)
  from build_frame_steps [OF fs this] have "1 \<le> reg (frames s ! i)" by blast
  with reg_le_sum [OF i] have "1 \<le> sum_list (map reg (frames s))" by linarith
  moreover from t assms(3) have "g_tree s = 0" by (simp add: tree_inv_def main_ok_def)
  moreover from cnt have "g_tree s = int (sum_list (map reg (frames s)) + main_reg (mainpc s))"
    by (simp add: counter_inv_def registered_def)
  ultimately have False by linarith
  then show ?thesis ..
qed

lemma run_build_bound:
  assumes wp: "well_posed w c"
  shows "run w c sched s0 = Some s \<Longrightarrow> inv w c s0 \<Longrightarrow> live w c s0 \<Longrightarrow> building (mainpc s) \<Longrightarrow>
         inv w c s \<and> live w c s \<and> length sched + effort w c s \<le> effort w c s0"
proof (induction sched arbitrary: s0)
  case Nil
  then show ?case by simp
next
  case (Cons i sched)
  from Cons.prems(1) obtain s1 where st: "step w c i s0 = Some s1"
    and r: "run w c sched s1 = Some s" by (auto split: option.splits)
  from Cons.prems(2) have cnt: "counter_inv s0" by (simp add: inv_def)
  from step_inv [OF st Cons.prems(2)] have I1: "inv w c s1" .
  then have cnt1: "counter_inv s1" by (simp add: inv_def)
  have b1: "building (mainpc s1)"
    using run_leaves_build [OF r cnt1] Cons.prems(4) by blast
  have b0: "building (mainpc s0)"
    using step_leaves_build [OF st cnt] b1 by blast
  have ng: "\<forall>head. mainpc s0 \<noteq> MGenAdd head"
    using step_after_return [OF st Cons.prems(2)] b1 by blast
  from step_live [OF st Cons.prems(2,3) wp b0 ng]
  have l1: "live w c s1" and e1: "effort w c s1 < effort w c s0" by simp_all
  from Cons.IH [OF r I1 l1 Cons.prems(4)] e1 show ?case by simp
qed

lemma build_returns:
  assumes wp: "well_posed w c"
  shows "inv w c s \<Longrightarrow> live w c s \<Longrightarrow> building (mainpc s) \<Longrightarrow>
         \<exists>sched s' head. run w c sched s = Some s' \<and> mainpc s' = MGenAdd head \<and> exited s' = None"
proof (induction "effort w c s" arbitrary: s rule: less_induct)
  case less
  show ?case
  proof (cases "\<exists>head. mainpc s = MGenAdd head")
    case True
    then obtain head where "mainpc s = MGenAdd head" by blast
    moreover from less.prems(2) have "exited s = None" by (simp add: live_def)
    moreover have "run w c [] s = Some s" by simp
    ultimately show ?thesis by blast
  next
    case False
    then have ng: "\<forall>head. mainpc s \<noteq> MGenAdd head" by simp
    from build_progress [OF less.prems(1,2) wp less.prems(3) ng]
    obtain i s1 where st: "step w c i s = Some s1" by blast
    from step_live [OF st less.prems(1,2) wp less.prems(3) ng]
    have l1: "live w c s1" and e1: "effort w c s1 < effort w c s" and b1: "building (mainpc s1)"
      by simp_all
    from less.hyps [OF e1 step_inv [OF st less.prems(1)] l1 b1]
    obtain sched s' head where "run w c sched s1 = Some s'" "mainpc s' = MGenAdd head"
      "exited s' = None" by blast
    with st have "run w c (i # sched) s = Some s'" by simp
    with \<open>mainpc s' = MGenAdd head\<close> \<open>exited s' = None\<close> show ?thesis by blast
  qed
qed

lemma live_init: "live w c init"
  by (simp add: live_def init_def)

lemma effort_init: "unfolds w c (rootID c) t \<Longrightarrow> effort w c init = 8 * length (orgs t) + 6"
  by (simp add: effort_def init_def hsize_eq)

text \<open>
  C1. The flags are set and the hierarchy below the root identifier is the finite tree \<open>t\<close>
  (every identifier in it resolves, none is its own descendant). Then, whatever the
  schedule: while InitTree runs the process does not exit, has taken at most
  \<open>8 * nodes + 6\<close> steps and some goroutine can move, so InitTree does return; and in every
  state in which it has returned, the tree below the node it returns is \<open>t\<close>: the same
  nodes, each with the children its payload lists, in that order.
\<close>

theorem InitTree_builds_the_hierarchy:
  assumes "rootID c \<noteq> []" and "username c \<noteq> []" and "password c \<noteq> []"
    and "unfolds w c (rootID c) t"
  shows "(\<forall>sched s. run w c sched init = Some s \<and> building (mainpc s) \<longrightarrow>
            exited s = None \<and> length sched \<le> 8 * length (orgs t) + 6 \<and>
            ((\<exists>head. mainpc s = MGenAdd head) \<or> (\<exists>i s'. step w c i s = Some s'))) \<and>
         (\<exists>sched s. run w c sched init = Some s \<and> mainpc s = MGenAdd 0 \<and> exited s = None) \<and>
         (\<forall>sched s head. run w c sched init = Some s \<and> mainpc s = MGenAdd head \<longrightarrow>
            head = 0 \<and> tree_of (length (heap s)) (heap s) head = Some t)"
proof (intro conjI allI impI)
  from assms have wp: "well_posed w c" by (auto simp: well_posed_def unfoldable_def)
  note e0 = effort_init [OF assms(4)]
  {
    fix sched s
    assume a: "run w c sched init = Some s \<and> building (mainpc s)"
    from run_build_bound [OF wp _ inv_init live_init, of sched s] a
    have I: "inv w c s" and l: "live w c s" and le: "length sched + effort w c s \<le> effort w c init"
      by simp_all
    from l show "exited s = None" by (simp add: live_def)
    from le e0 show "length sched \<le> 8 * length (orgs t) + 6" by simp
    show "(\<exists>head. mainpc s = MGenAdd head) \<or> (\<exists>i s'. step w c i s = Some s')"
      using build_progress [OF I l wp] a by blast
  }
  from build_returns [OF wp inv_init live_init]
  obtain sched s head where r: "run w c sched init = Some s" "mainpc s = MGenAdd head"
    "exited s = None" by (auto simp: init_def)
  from built_complete [OF r(1,2)] have "head = 0" by simp
  with r show "\<exists>sched s. run w c sched init = Some s \<and> mainpc s = MGenAdd 0 \<and> exited s = None"
    by blast
  {
    fix sched s head
    assume a: "run w c sched init = Some s \<and> mainpc s = MGenAdd head"
    then show "head = 0" using built_complete by blast
    from a show "tree_of (length (heap s)) (heap s) head = Some t"
      using built_tree assms(4) by blast
  }
qed

lemma ex_unfolds: "unfolds ex_world ex_config (rootID ex_config) ex_tree"
  by (simp add: ex_tree_def resolves_def getOrganizationMetrics_def ex_world_def ex_http_def
      ex_unmarshalOrganization_def ex_config_def org_A_def org_B_def org_C_def)

theorem InitTree_builds_the_hierarchy_witness:
  "rootID ex_config \<noteq> [] \<and> username ex_config \<noteq> [] \<and> password ex_config \<noteq> [] \<and>
   unfolds ex_world ex_config (rootID ex_config) ex_tree \<and>
   (\<exists>s. run ex_world ex_config ex_sched_built init = Some s \<and> mainpc s = MGenAdd 0 \<and>
        exited s = None \<and> length ex_sched_built \<le> 8 * length (orgs ex_tree) + 6 \<and>
        tree_of (length (heap s)) (heap s) 0 = Some ex_tree)"
proof -
  have f: "rootID ex_config \<noteq> []" "username ex_config \<noteq> []" "password ex_config \<noteq> []"
    by (simp_all add: ex_config_def)
  note t = InitTree_builds_the_hierarchy [OF f ex_unfolds]
  from ex_built obtain s where r: "run ex_world ex_config ex_sched_built init = Some s"
    and m: "mainpc s = MGenAdd 0" by auto
  from t r m have "tree_of (length (heap s)) (heap s) 0 = Some ex_tree" by blast
  moreover from t r m have "exited s = None \<and> length ex_sched_built \<le> 8 * length (orgs ex_tree) + 6"
    by (metis building.simps(7))
  ultimately show ?thesis using f ex_unfolds r m by blast
qed

section \<open>The enrichment\<close>

lemma gen_stepE:
  assumes "gen_step w c p pc s = Some (pc', s')"
  obtains
    (Exit) i out err where "pc = GEnv i" "i < length (envs_at (heap s) p)" "pc' = pc"
      "getDeployedArtifacts w c (env_ID (envs_at (heap s) p ! i)) = Exit1 out err"
      "s' = exit_with 1 out err
              (sent (GetApplications (username c) (password c) (env_ID (envs_at (heap s) p ! i))) s)"
  | (Fetch) i out byteArray where "pc = GEnv i" "i < length (envs_at (heap s) p)"
      "getDeployedArtifacts w c (env_ID (envs_at (heap s) p ! i)) = Return out byteArray"
      "pc' = GAssign i (fst (unmarshalApplications w byteArray []))"
      "s' = print out
              (sent (GetApplications (username c) (password c) (env_ID (envs_at (heap s) p ! i))) s)"
  | (Kids) i where "pc = GEnv i" "\<not> i < length (envs_at (heap s) p)"
      "pc' = GKids (Children (heap s ! p))" "s' = s"
  | (Assign) i apps where "pc = GAssign i apps" "pc' = GEnv (Suc i)"
      "s' = modify p (set_Applications i apps) s"
  | (Done) "pc = GKids []" "pc' = GReturned" "s' = done_main s"
  | (Add) k ks where "pc = GKids (k # ks)" "pc' = GGo k ks" "s' = s\<lparr>g_main := g_main s + 1\<rparr>"
  | (Go) k ks where "pc = GGo k ks" "pc' = GKids ks"
      "s' = s\<lparr>frames := frames s @ [GenerateApplications k (GEnv 0)]\<rparr>"
proof (cases pc)
  case (GEnv i)
  show thesis
  proof (cases "i < length (envs_at (heap s) p)")
    case True
    show thesis
    proof (cases "getDeployedArtifacts w c (env_ID (envs_at (heap s) p ! i))")
      case (Exit1 out err)
      with assms GEnv True show thesis by (intro Exit [of i out err]) (simp_all add: Let_def)
    next
      case (Return out byteArray)
      with assms GEnv True show thesis by (intro Fetch [of i out byteArray]) (simp_all add: Let_def)
    qed
  next
    case False
    with assms GEnv show thesis by (intro Kids [of i]) (auto simp: Let_def)
  qed
next
  case (GAssign i apps)
  with assms show thesis by (intro Assign [of i apps]) simp_all
next
  case (GKids ks)
  show thesis
  proof (cases ks)
    case Nil
    with assms GKids show thesis by (intro Done) simp_all
  next
    case (Cons k ks')
    with assms GKids show thesis by (intro Add [of k ks']) simp_all
  qed
next
  case (GGo k ks)
  with assms show thesis by (intro Go [of k ks]) simp_all
next
  case GReturned
  with assms show thesis by simp
qed

lemma enriches_refl: "enriches w c h h"
  by (simp add: enriches_def list_all2_refl)

lemma gpc_ok_mono:
  assumes "gpc_ok w c h fs p pc" and "enriches w c h h'"
    and "\<And>k. covered fs k \<Longrightarrow> covered fs' k"
  shows "gpc_ok w c h' fs' p pc"
proof -
  from assms(2) have ch: "Children (h' ! p) = Children (h ! p)"
    and l2: "list_all2 (\<lambda>e e'. env_ID e' = env_ID e \<and> (fetched w c e \<longrightarrow> fetched w c e'))
               (envs_at h p) (envs_at h' p)"
    by (simp_all add: enriches_def)
  from l2 have len: "length (envs_at h' p) = length (envs_at h p)"
    by (simp add: list_all2_lengthD)
  from l2 have nth: "\<And>j. j < length (envs_at h p) \<Longrightarrow>
     env_ID (envs_at h' p ! j) = env_ID (envs_at h p ! j) \<and>
     (fetched w c (envs_at h p ! j) \<longrightarrow> fetched w c (envs_at h' p ! j))"
    by (simp add: list_all2_conv_all_nth)
  have ed: "envs_done w c h' p i" if "envs_done w c h p i" for i
    using that nth len by (auto simp: envs_done_def)
  have ad: "all_done w c h' p" if a: "all_done w c h p"
    unfolding all_done_def
  proof
    fix env assume "env \<in> set (envs_at h' p)"
    then obtain j where j: "j < length (envs_at h p)" "env = envs_at h' p ! j"
      using len by (auto simp: in_set_conv_nth)
    from j(1) a have "fetched w c (envs_at h p ! j)" by (simp add: all_done_def)
    with nth [OF j(1)] j(2) show "fetched w c env" by simp
  qed
  show ?thesis
  proof (cases pc)
    case (GEnv i)
    with assms(1) ed show ?thesis by simp
  next
    case (GAssign i apps)
    with assms(1) ed len nth [of i] show ?thesis by auto
  next
    case (GKids ks)
    with assms(1) obtain pre where "all_done w c h p" "Children (h ! p) = pre @ ks"
      "\<forall>k\<in>set pre. covered fs k" by auto
    with ad ch assms(3) GKids show ?thesis by auto
  next
    case (GGo k ks)
    with assms(1) obtain pre where "all_done w c h p" "Children (h ! p) = pre @ k # ks"
      "\<forall>k\<in>set pre. covered fs k" by auto
    with ad ch assms(3) GGo show ?thesis by auto
  next
    case GReturned
    with assms(1,3) ad ch show ?thesis by auto
  qed
qed

lemma set_Applications_enriches:
  assumes p: "p < length h" and i: "i < length (envs_at h p)"
    and g: "getDeployedArtifacts w c (env_ID (envs_at h p ! i)) = Return out byteArray"
    and apps: "apps = fst (unmarshalApplications w byteArray [])"
  shows "enriches w c h (h[p := set_Applications i apps (h ! p)])"
    and "fetched w c (envs_at (h[p := set_Applications i apps (h ! p)]) p ! i)"
proof -
  let ?h = "h[p := set_Applications i apps (h ! p)]"
  have f: "fetched w c ((envs_at h p ! i)\<lparr>Applications := apps\<rparr>)"
    using g apps by (simp add: fetched_def)
  have ep: "envs_at ?h p = (envs_at h p)[i := (envs_at h p ! i)\<lparr>Applications := apps\<rparr>]"
    using p by (simp add: set_Applications_def)
  show "fetched w c (envs_at ?h p ! i)" using f i by (simp add: ep)
  have "Children (?h ! a) = Children (h ! a) \<and>
        list_all2 (\<lambda>e e'. env_ID e' = env_ID e \<and> (fetched w c e \<longrightarrow> fetched w c e'))
          (envs_at h a) (envs_at ?h a)" for a
  proof (cases "a = p")
    case False
    then show ?thesis by (simp add: list_all2_refl)
  next
    case True
    have "Children (?h ! p) = Children (h ! p)" using p by (simp add: set_Applications_def)
    moreover have "list_all2 (\<lambda>e e'. env_ID e' = env_ID e \<and> (fetched w c e \<longrightarrow> fetched w c e'))
          (envs_at h p) (envs_at ?h p)"
      unfolding ep list_all2_conv_all_nth using f i by (auto simp: nth_list_update)
    ultimately show ?thesis using True by simp
  qed
  then show "enriches w c h ?h" by (simp add: enriches_def)
qed

lemma covered_append: "covered fs k \<Longrightarrow> covered (fs @ new) k"
  by (auto simp: covered_def)

lemma gen_step_effect:
  assumes st: "gen_step w c p pc s = Some (pc', s')" and p: "p < length (heap s)"
    and ok: "gpc_ok w c (heap s) (frames s) p pc" and g: "int (greg (GenerateApplications p pc)) \<le> g_main s"
  shows "enriches w c (heap s) (heap s')"
    and "mainpc s' = mainpc s"
    and "\<exists>new. frames s' = frames s @ new \<and>
           (\<forall>f\<in>set new. \<exists>k. f = GenerateApplications k (GEnv 0)) \<and>
           g_main s' + int (greg (GenerateApplications p pc)) =
             g_main s + int (greg (GenerateApplications p pc')) + int (sum_list (map greg new)) \<and>
           (\<forall>fs'. (\<forall>k. covered (frames s @ new) k \<longrightarrow> covered fs' k) \<longrightarrow>
                  gpc_ok w c (heap s') fs' p pc')"
proof -
  show "mainpc s' = mainpc s"
    using st by (cases rule: gen_stepE)
      (auto simp: done_main_def exit_with_def sent_def print_def modify_def)
  show e: "enriches w c (heap s) (heap s')"
    using st
  proof (cases rule: gen_stepE)
    case (Assign i apps)
    with ok obtain out byteArray where "i < length (envs_at (heap s) p)"
      "getDeployedArtifacts w c (env_ID (envs_at (heap s) p ! i)) = Return out byteArray"
      "apps = fst (unmarshalApplications w byteArray [])" by auto
    from set_Applications_enriches(1) [OF p this] Assign show ?thesis by (simp add: modify_def)
  qed (auto simp: done_main_def exit_with_def sent_def print_def enriches_refl)
  show "\<exists>new. frames s' = frames s @ new \<and>
           (\<forall>f\<in>set new. \<exists>k. f = GenerateApplications k (GEnv 0)) \<and>
           g_main s' + int (greg (GenerateApplications p pc)) =
             g_main s + int (greg (GenerateApplications p pc')) + int (sum_list (map greg new)) \<and>
           (\<forall>fs'. (\<forall>k. covered (frames s @ new) k \<longrightarrow> covered fs' k) \<longrightarrow>
                  gpc_ok w c (heap s') fs' p pc')"
    using st
  proof (cases rule: gen_stepE)
    case (Exit i out err)
    have "gpc_ok w c (heap s') fs' p pc'" if "\<forall>k. covered (frames s) k \<longrightarrow> covered fs' k" for fs'
      using gpc_ok_mono [OF ok e] that Exit by simp
    with Exit show ?thesis
      by (intro exI [of _ "[]"]) (simp add: exit_with_def sent_def)
  next
    case (Fetch i out byteArray)
    have "gpc_ok w c (heap s') fs' p pc'" for fs'
      using ok Fetch by (auto simp: print_def sent_def)
    with Fetch show ?thesis
      by (intro exI [of _ "[]"]) (simp add: print_def sent_def)
  next
    case (Kids i)
    from ok Kids have "all_done w c (heap s) p"
      by (auto simp: all_done_def envs_done_def in_set_conv_nth)
    then have "gpc_ok w c (heap s') fs' p pc'" for fs'
      using Kids by simp
    with Kids show ?thesis by (intro exI [of _ "[]"]) simp
  next
    case (Assign i apps)
    from ok Assign obtain out byteArray where i: "i < length (envs_at (heap s) p)"
      and d: "envs_done w c (heap s) p i"
      and ga: "getDeployedArtifacts w c (env_ID (envs_at (heap s) p ! i)) = Return out byteArray"
        "apps = fst (unmarshalApplications w byteArray [])" by auto
    have h': "heap s' = (heap s)[p := set_Applications i apps (heap s ! p)]"
      using Assign by (simp add: modify_def)
    from set_Applications_enriches(2) [OF p i ga] have fi: "fetched w c (envs_at (heap s') p ! i)"
      by (simp add: h')
    from e have l2: "list_all2 (\<lambda>e e'. env_ID e' = env_ID e \<and> (fetched w c e \<longrightarrow> fetched w c e'))
               (envs_at (heap s) p) (envs_at (heap s') p)"
      by (simp add: enriches_def)
    have "envs_done w c (heap s') p (Suc i)"
      unfolding envs_done_def
    proof (intro allI impI)
      fix j assume j: "j < Suc i" "j < length (envs_at (heap s') p)"
      show "fetched w c (envs_at (heap s') p ! j)"
      proof (cases "j = i")
        case True
        with fi show ?thesis by simp
      next
        case False
        with j have ji: "j < i" by simp
        from l2 j(2) have "j < length (envs_at (heap s) p)" by (simp add: list_all2_lengthD)
        with d ji l2 show ?thesis by (simp add: envs_done_def list_all2_conv_all_nth)
      qed
    qed
    with Assign show ?thesis by (intro exI [of _ "[]"]) (simp add: modify_def)
  next
    case Done
    with ok g show ?thesis
      by (intro exI [of _ "[]"]) (auto simp: done_main_def)
  next
    case (Add k ks)
    with ok show ?thesis by (intro exI [of _ "[]"]) auto
  next
    case (Go k ks)
    from ok Go obtain pre where a: "all_done w c (heap s) p"
      and ch: "Children (heap s ! p) = pre @ k # ks" and cv: "\<forall>k'\<in>set pre. covered (frames s) k'"
      by auto
    let ?new = "[GenerateApplications k (GEnv 0)]"
    have "gpc_ok w c (heap s') fs' p pc'" if c: "\<forall>k. covered (frames s @ ?new) k \<longrightarrow> covered fs' k" for fs'
    proof -
      have "covered (frames s @ ?new) k" by (auto simp: covered_def)
      with c have "covered fs' k" by simp
      moreover have "\<forall>k'\<in>set pre. covered fs' k'" using cv c covered_append by blast
      ultimately have "\<forall>k'\<in>set (pre @ [k]). covered fs' k'" by simp
      moreover have "Children (heap s ! p) = (pre @ [k]) @ ks" using ch by simp
      ultimately show ?thesis using a Go by (simp del: append_assoc)
    qed
    with Go show ?thesis by (intro exI [of _ ?new]) simp
  qed
qed

lemma greg_le_sum: "i < length fs \<Longrightarrow> greg (fs ! i) \<le> sum_list (map greg fs)"
  by (simp add: member_le_sum_list)

lemma covered_update:
  assumes "i < length fs" and "fs ! i = GenerateApplications p pc" and "covered fs k"
  shows "covered (fs[i := GenerateApplications p pc'] @ new) k"
proof -
  from assms(3) obtain qc where "GenerateApplications k qc \<in> set fs" by (auto simp: covered_def)
  then obtain j where j: "j < length fs" "fs ! j = GenerateApplications k qc"
    by (auto simp: in_set_conv_nth)
  show ?thesis
  proof (cases "j = i")
    case True
    with j assms(2) have "k = p" by simp
    moreover have "GenerateApplications p pc' \<in> set (fs[i := GenerateApplications p pc'])"
      using assms(1) by (simp add: set_update_memI)
    ultimately show ?thesis by (auto simp: covered_def)
  next
    case False
    with j have "fs[i := GenerateApplications p pc'] ! j = GenerateApplications k qc" by simp
    moreover have "j < length (fs[i := GenerateApplications p pc'])" using j by simp
    ultimately have "GenerateApplications k qc \<in> set (fs[i := GenerateApplications p pc'])"
      by (metis nth_mem)
    then show ?thesis by (auto simp: covered_def)
  qed
qed

lemma gframe_ok_mono:
  assumes "gframe_ok w c h fs f" and "enriches w c h h'"
    and "\<And>k. covered fs k \<Longrightarrow> covered fs' k"
  shows "gframe_ok w c h' fs' f"
  using assms by (cases f) (auto intro: gpc_ok_mono)

lemma frame_run_gen:
  assumes run: "frame_run w c i s = Some s'" and inv: "gen_inv w c s"
    and call: "i = 0 \<longrightarrow> in_call s"
  shows "gen_inv w c s'"
proof -
  from run obtain f' s1 where i: "i < length (frames s)"
    and fs: "frame_step w c (frames s ! i) s = Some (f', s1)"
    and s': "s' = s1\<lparr>frames := (frames s1)[i := f']\<rparr>"
    by (auto simp: frame_run_def split: if_splits option.splits)
  from inv have gm: "g_main s = int (sum_list (map greg (frames s)) + main_greg (mainpc s))"
    and fok: "\<forall>f\<in>set (frames s). gframe_ok w c (heap s) (frames s) f"
    and mok: "gmain_ok s"
    by (simp_all add: gen_inv_def)
  from fok i have fi: "gframe_ok w c (heap s) (frames s) (frames s ! i)" by simp
  obtain p pc pc' where f: "frames s ! i = GenerateApplications p pc"
    and f': "f' = GenerateApplications p pc'"
    and gs: "gen_step w c p pc s = Some (pc', s1)" and p: "p < length (heap s)"
  proof (cases "frames s ! i")
    case Idle
    with fs show ?thesis by simp
  next
    case (BuildOrgTree q qc)
    with fi fs show ?thesis by (auto split: if_splits)
  next
    case (GenerateApplications q qc)
    with fs that show ?thesis by (auto split: if_splits)
  qed
  from fi f have ok: "gpc_ok w c (heap s) (frames s) p pc" by simp
  from greg_le_sum [OF i] gm f have g: "int (greg (GenerateApplications p pc)) \<le> g_main s" by simp
  note eff = gen_step_effect [OF gs p ok g]
  from eff(3) obtain new where fr: "frames s1 = frames s @ new"
    and newf: "\<forall>f\<in>set new. \<exists>k. f = GenerateApplications k (GEnv 0)"
    and cnt: "g_main s1 + int (greg (GenerateApplications p pc)) =
             g_main s + int (greg (GenerateApplications p pc')) + int (sum_list (map greg new))"
    and ok': "\<And>fs'. (\<forall>k. covered (frames s @ new) k \<longrightarrow> covered fs' k) \<Longrightarrow>
                  gpc_ok w c (heap s1) fs' p pc'"
    by blast
  have upd: "frames s' = (frames s)[i := f'] @ new"
    using i fr by (simp add: s' list_update_append)
  have hp: "heap s' = heap s1" and mp: "mainpc s' = mainpc s" and gp: "g_main s' = g_main s1"
    using eff(2) by (simp_all add: s')
  have cov: "covered (frames s') k" if "covered (frames s) k" for k
    unfolding upd f' by (rule covered_update [OF i f that])
  have cov2: "covered (frames s') k" if "covered (frames s @ new) k" for k
  proof -
    from that obtain qc where "GenerateApplications k qc \<in> set (frames s) \<or>
        GenerateApplications k qc \<in> set new" by (auto simp: covered_def)
    then show ?thesis
    proof
      assume "GenerateApplications k qc \<in> set (frames s)"
      then have "covered (frames s) k" by (auto simp: covered_def)
      then show ?thesis by (rule cov)
    next
      assume "GenerateApplications k qc \<in> set new"
      then show ?thesis by (auto simp: covered_def upd)
    qed
  qed
  have 1: "g_main s' = int (sum_list (map greg (frames s')) + main_greg (mainpc s'))"
  proof -
    have "sum_list (map greg ((frames s)[i := f'])) + greg (frames s ! i) =
          sum_list (map greg (frames s)) + greg f'"
      by (rule sum_map_update [OF i])
    with cnt gm show ?thesis unfolding upd mp gp f f' by simp
  qed
  have 2: "frames s' \<noteq> []" using i by (auto simp: upd)
  have 3: "\<forall>g\<in>set (frames s'). gframe_ok w c (heap s') (frames s') g"
  proof
    fix g assume "g \<in> set (frames s')"
    then consider "g \<in> set new" | "g \<in> set ((frames s)[i := f'])" by (auto simp: upd)
    then show "gframe_ok w c (heap s') (frames s') g"
    proof cases
      case 1
      with newf show ?thesis by (auto simp: envs_done_def)
    next
      case 2
      from in_set_update_cases [OF this] show ?thesis
      proof
        assume "g = f'"
        with ok' [of "frames s'"] cov2 f' show ?thesis by (simp add: hp)
      next
        assume "\<exists>j<length (frames s). j \<noteq> i \<and> g = frames s ! j"
        with fok have "gframe_ok w c (heap s) (frames s) g" by auto
        from gframe_ok_mono [OF this eff(1)] cov show ?thesis by (simp add: hp)
      qed
    qed
  qed
  have f0: "frames s' ! 0 = (if i = 0 then f' else frames s ! 0)"
    using i by (auto simp: upd nth_append)
  have gpos: "g_main s \<noteq> 0"
  proof -
    from gs have "pc \<noteq> GReturned" by auto
    then have "1 \<le> greg (GenerateApplications p pc)" by (cases pc) auto
    with g show ?thesis by simp
  qed
  have 4: "gmain_ok s'"
  proof (cases "mainpc s")
    case (MGenAdd head)
    with mok obtain q where "frames s ! 0 = BuildOrgTree q BReturned" by (auto simp: gmain_ok_def)
    with f have "i \<noteq> 0" by (cases "i = 0") auto
    with mok MGenAdd f0 show ?thesis by (simp add: gmain_ok_def mp)
  next
    case (MGenCall head)
    with mok obtain q where "frames s ! 0 = BuildOrgTree q BReturned" by (auto simp: gmain_ok_def)
    with f have "i \<noteq> 0" by (cases "i = 0") auto
    with mok MGenCall f0 show ?thesis by (simp add: gmain_ok_def mp)
  next
    case (MGen head)
    with mok f f' f0 show ?thesis by (auto simp: gmain_ok_def mp)
  next
    case (MGenWait head)
    with call have "i \<noteq> 0" by (auto simp: in_call_def)
    with mok MGenWait f0 show ?thesis by (simp add: gmain_ok_def mp)
  next
    case (MWriteTree head)
    with mok gpos show ?thesis by (simp add: gmain_ok_def)
  next
    case (MFlatten head)
    with mok gpos show ?thesis by (simp add: gmain_ok_def)
  qed (use mok in \<open>auto simp: gmain_ok_def\<close>)
  from 1 2 3 4 show ?thesis by (simp add: gen_inv_def)
qed

lemma gen_inv_same:
  assumes "gen_inv w c s" and "g_main s' = g_main s" and "frames s' = frames s"
    and "heap s' = heap s" and "main_greg (mainpc s') = main_greg (mainpc s)" and "gmain_ok s'"
  shows "gen_inv w c s'"
  using assms unfolding gen_inv_def by simp

lemma main_step_gen:
  assumes st: "main_step w c s = Some s'" and inv: "gen_inv w c s" and call: "\<not> in_call s"
  shows "gen_inv w c s'"
proof -
  from inv have gm: "g_main s = int (sum_list (map greg (frames s)) + main_greg (mainpc s))"
    and ne: "frames s \<noteq> []"
    and fok: "\<forall>f\<in>set (frames s). gframe_ok w c (heap s) (frames s) f"
    and mok: "gmain_ok s"
    by (simp_all add: gen_inv_def)
  show ?thesis
  proof (cases "mainpc s")
    case (MGenAdd head)
    with st have "s' = s\<lparr>g_main := g_main s + 1, mainpc := MGenCall head\<rparr>"
      by (simp add: main_step_def)
    with inv MGenAdd show ?thesis by (simp add: gen_inv_def gmain_ok_def)
  next
    case (MGenCall head)
    let ?f = "GenerateApplications head (GEnv 0)"
    from st MGenCall have s': "s' = s\<lparr>frames := (frames s)[0 := ?f], mainpc := MGen head\<rparr>"
      by (simp add: main_step_def)
    from mok MGenCall obtain q where f0: "frames s ! 0 = BuildOrgTree q BReturned"
      by (auto simp: gmain_ok_def)
    from ne have l: "0 < length (frames s)" by simp
    from sum_map_update [OF l, of greg ?f] f0
    have sum: "sum_list (map greg ((frames s)[0 := ?f])) = sum_list (map greg (frames s)) + 1"
      by simp
    have cov: "covered ((frames s)[0 := ?f]) k" if "covered (frames s) k" for k
    proof -
      from that obtain qc where "GenerateApplications k qc \<in> set (frames s)"
        by (auto simp: covered_def)
      then obtain j where j: "j < length (frames s)" "frames s ! j = GenerateApplications k qc"
        by (auto simp: in_set_conv_nth)
      with f0 have "j \<noteq> 0" by (cases "j = 0") auto
      with j have "(frames s)[0 := ?f] ! j = GenerateApplications k qc" by simp
      moreover have "j < length ((frames s)[0 := ?f])" using j by simp
      ultimately have "GenerateApplications k qc \<in> set ((frames s)[0 := ?f])" by (metis nth_mem)
      then show ?thesis by (auto simp: covered_def)
    qed
    have "gframe_ok w c (heap s) ((frames s)[0 := ?f]) g" if "g \<in> set ((frames s)[0 := ?f])" for g
      using in_set_update_cases [OF that]
    proof
      assume "g = ?f"
      then show ?thesis by (simp add: envs_done_def)
    next
      assume "\<exists>j<length (frames s). j \<noteq> 0 \<and> g = frames s ! j"
      with fok have "gframe_ok w c (heap s) (frames s) g" by auto
      from gframe_ok_mono [OF this enriches_refl] cov show ?thesis by simp
    qed
    with gm MGenCall sum l show ?thesis by (simp add: gen_inv_def gmain_ok_def s')
  next
    case (MGen head)
    with st have "s' = s\<lparr>mainpc := MGenWait head\<rparr>" by (simp add: main_step_def)
    with inv MGen call show ?thesis by (auto simp: gen_inv_def gmain_ok_def in_call_def)
  next
    case (MGenWait head)
    with st have "s' = s\<lparr>mainpc := MWriteTree head\<rparr>" "g_main s = 0"
      by (simp_all add: main_step_def split: if_splits)
    with inv MGenWait show ?thesis by (simp add: gen_inv_def gmain_ok_def)
  next
    case (MWriteTree head)
    from mok MWriteTree have m: "frames s ! 0 = GenerateApplications head GReturned" "g_main s = 0"
      by (simp_all add: gmain_ok_def)
    from st MWriteTree have "g_main s' = g_main s \<and> frames s' = frames s \<and> heap s' = heap s \<and>
        (mainpc s' = MWriteTree head \<or> mainpc s' = MFlatten head)"
      by (auto simp: main_step_def exit_with_def split: option.splits sum.splits)
    with m MWriteTree show ?thesis by (intro gen_inv_same [OF inv]) (auto simp: gmain_ok_def)
  next
    case (MFlatten head)
    from mok MFlatten have m: "frames s ! 0 = GenerateApplications head GReturned" "g_main s = 0"
      by (simp_all add: gmain_ok_def)
    from st MFlatten have "g_main s' = g_main s \<and> frames s' = frames s \<and> heap s' = heap s \<and>
        mainpc s' = MFlatten head"
      by (auto simp: main_step_def exit_with_def print_def Let_def split: option.splits sum.splits)
    with m MFlatten show ?thesis by (intro gen_inv_same [OF inv]) (auto simp: gmain_ok_def)
  next
    case MFlags
    with mok show ?thesis by (simp add: gmain_ok_def)
  next
    case MInitTree
    with mok show ?thesis by (simp add: gmain_ok_def)
  next
    case (MTreeAdd node)
    with mok show ?thesis by (simp add: gmain_ok_def)
  next
    case (MTreeCall node)
    with mok show ?thesis by (simp add: gmain_ok_def)
  next
    case (MTreeBuild node)
    with mok show ?thesis by (simp add: gmain_ok_def)
  next
    case (MTreeWait node)
    with mok show ?thesis by (simp add: gmain_ok_def)
  qed
qed

lemma step_gen:
  assumes "step w c i s = Some s'" and "gen_inv w c s"
  shows "gen_inv w c s'"
proof (cases "i = 0 \<and> \<not> in_call s")
  case True
  with assms(1) have "main_step w c s = Some s'" by (simp add: step_def split: if_splits)
  from main_step_gen [OF this assms(2)] True show ?thesis by simp
next
  case False
  with assms(1) have "frame_run w c i s = Some s'" by (auto simp: step_def split: if_splits)
  from frame_run_gen [OF this assms(2)] False show ?thesis by blast
qed

lemma sum_list_zero: "(\<And>x. x \<in> set xs \<Longrightarrow> f x = (0::nat)) \<Longrightarrow> sum_list (map f xs) = 0"
  by (induction xs) auto

lemma gen_inv_start:
  assumes t: "tree_inv w c s" and cnt: "counter_inv s" and g: "g_main s = 0"
    and m: "mainpc s = MGenAdd head"
  shows "gen_inv w c s"
proof -
  from t m have g0: "g_tree s = 0" and f0: "frames s ! 0 = BuildOrgTree 0 BReturned"
    by (simp_all add: tree_inv_def main_ok_def)
  from cnt g0 have z: "sum_list (map reg (frames s)) = 0"
    unfolding counter_inv_def registered_def by linarith
  have each: "gframe_ok w c (heap s) (frames s) f \<and> greg f = 0" if f: "f \<in> set (frames s)" for f
  proof (cases f)
    case Idle
    then show ?thesis by simp
  next
    case (BuildOrgTree p pc)
    with f z have "pc = BReturned" using reg_zero_returned by blast
    with BuildOrgTree show ?thesis by simp
  next
    case (GenerateApplications p pc)
    with t f show ?thesis by (auto simp: tree_inv_def)
  qed
  then have "sum_list (map greg (frames s)) = 0" by (intro sum_list_zero) simp
  moreover from cnt have "frames s \<noteq> []" by (simp add: counter_inv_def)
  ultimately show ?thesis using g m f0 each by (simp add: gen_inv_def gmain_ok_def)
qed

lemma main_step_g_main:
  assumes "main_step w c s = Some s'" and "\<forall>head. mainpc s \<noteq> MGenAdd head"
  shows "g_main s' = g_main s"
proof (cases "mainpc s")
  case MInitTree
  with assms show ?thesis
    by (cases "getOrganizationMetrics w c (rootID c)")
       (auto simp: main_step_def exit_with_def sent_def print_def alloc_def)
next
  case (MWriteTree head)
  with assms show ?thesis
    by (auto simp: main_step_def exit_with_def split: option.splits sum.splits)
next
  case (MFlatten head)
  with assms show ?thesis
    by (auto simp: main_step_def exit_with_def print_def Let_def split: option.splits sum.splits)
qed (use assms in \<open>auto simp: main_step_def exit_with_def split: if_splits\<close>)

lemma main_step_enters_gen:
  assumes "main_step w c s = Some s'" and "after_build (mainpc s')" and "\<not> after_build (mainpc s)"
  shows "\<exists>head. mainpc s' = MGenAdd head"
proof (cases "mainpc s")
  case MInitTree
  with assms show ?thesis
    by (cases "getOrganizationMetrics w c (rootID c)")
       (auto simp: main_step_def exit_with_def sent_def print_def alloc_def)
qed (use assms in \<open>auto simp: main_step_def exit_with_def split: if_splits\<close>)

lemma build_step_g_main:
  "build_step w c p pc s = Some (pc', s') \<Longrightarrow> g_main s' = g_main s"
  by (erule build_stepE)
     (simp_all add: done_tree_def exit_with_def sent_def print_def alloc_def modify_def)

lemma step_full:
  assumes st: "step w c i s = Some s'" and F: "full_inv w c s"
  shows "full_inv w c s'"
proof -
  from F have I: "inv w c s" and cnt: "counter_inv s" by (simp_all add: full_inv_def inv_def)
  from step_inv [OF st I] have I': "inv w c s'" .
  have main: "i = 0 \<and> \<not> in_call s \<Longrightarrow> main_step w c s = Some s'"
    using st by (simp add: step_def split: if_splits)
  have frame: "\<not> (i = 0 \<and> \<not> in_call s) \<Longrightarrow> frame_run w c i s = Some s'"
    using st by (auto simp: step_def split: if_splits)
  have g0: "g_main s' = 0" if b: "building (mainpc s')"
  proof (cases "i = 0 \<and> \<not> in_call s")
    case True
    from main_step_building [OF main [OF True] b] F have z: "g_main s = 0"
      by (simp add: full_inv_def)
    have "\<forall>head. mainpc s \<noteq> MGenAdd head"
    proof (intro allI notI)
      fix head assume "mainpc s = MGenAdd head"
      with main [OF True] b show False by (auto simp: main_step_def)
    qed
    from main_step_g_main [OF main [OF True] this] z show ?thesis by simp
  next
    case False
    note fr = frame [OF False]
    from frame_run_mainpc [OF fr cnt] b have b0: "building (mainpc s)" by simp
    with F have g: "g_main s = 0" and t: "tree_inv w c s" by (simp_all add: full_inv_def inv_def)
    from fr obtain f' s1 where i: "i < length (frames s)"
      and fs: "frame_step w c (frames s ! i) s = Some (f', s1)"
      and s': "s' = s1\<lparr>frames := (frames s1)[i := f']\<rparr>"
      by (auto simp: frame_run_def split: if_splits option.splits)
    from t i have "frame_ok w c (heap s) (frames s ! i)" by (simp add: tree_inv_def)
    then obtain p pc pc' where "frames s ! i = BuildOrgTree p pc" "f' = BuildOrgTree p pc'"
      "build_step w c p pc s = Some (pc', s1)" "pc_ok w c (heap s) p pc" "1 \<le> reg (frames s ! i)"
      by (rule build_frame_steps [OF fs])
    from build_step_g_main [OF this(3)] g show ?thesis by (simp add: s')
  qed
  have "gen_inv w c s'" if a: "after_build (mainpc s')"
  proof (cases "after_build (mainpc s)")
    case True
    with F have "gen_inv w c s" by (simp add: full_inv_def)
    from step_gen [OF st this] show ?thesis .
  next
    case False
    have "i = 0 \<and> \<not> in_call s"
    proof (rule ccontr)
      assume "\<not> ?thesis"
      from frame_run_mainpc [OF frame [OF this] cnt] a False show False by simp
    qed
    from main_step_enters_gen [OF main [OF this] a False]
    obtain head where m: "mainpc s' = MGenAdd head" by blast
    with I' have "tree_inv w c s'" "counter_inv s'" by (simp_all add: inv_def)
    from gen_inv_start [OF this _ m] g0 m show ?thesis by simp
  qed
  with I' g0 show ?thesis by (simp add: full_inv_def)
qed

lemma full_inv_init: "full_inv w c init"
  using inv_init [of w c] by (simp add: full_inv_def) (simp add: init_def)

lemma run_full: "run w c sched init = Some s \<Longrightarrow> full_inv w c s"
  using run_invariant [of w c "full_inv w c" init sched s] step_full full_inv_init by blast

lemma greg_zero_returned:
  assumes "sum_list (map greg fs) = 0" and "GenerateApplications p pc \<in> set fs"
  shows "pc = GReturned"
proof -
  from assms have "greg (GenerateApplications p pc) = 0" by auto
  then show ?thesis by (cases pc) auto
qed

lemma enriched_all:
  assumes "run w c sched init = Some s" and "mainpc s = MWriteTree head"
  shows "(\<forall>f\<in>set (frames s). inert f) \<and> (\<forall>a\<in>reach (heap s) head. all_done w c (heap s) a)"
proof -
  from run_full [OF assms(1)] assms(2) have g: "gen_inv w c s" by (simp add: full_inv_def)
  from g have "gmain_ok s" unfolding gen_inv_def by (elim conjE)
  with assms(2) have f0: "frames s ! 0 = GenerateApplications head GReturned" and g0: "g_main s = 0"
    by (simp_all add: gmain_ok_def)
  from g have "g_main s = int (sum_list (map greg (frames s)) + main_greg (mainpc s))"
    unfolding gen_inv_def by (elim conjE)
  with g0 have z: "sum_list (map greg (frames s)) = 0" by linarith
  from g have fok: "\<forall>f\<in>set (frames s). gframe_ok w c (heap s) (frames s) f" and ne: "frames s \<noteq> []"
    by (simp_all add: gen_inv_def)
  have in1: "inert f" if "f \<in> set (frames s)" for f
  proof (cases f)
    case (GenerateApplications p pc)
    with that z show ?thesis using greg_zero_returned by auto
  next
    case (BuildOrgTree p pc)
    with that fok show ?thesis by auto
  qed simp
  have cov: "all_done w c (heap s) a \<and> (\<forall>k\<in>set (Children (heap s ! a)). covered (frames s) k)"
    if "covered (frames s) a" for a
  proof -
    from that obtain pc where m: "GenerateApplications a pc \<in> set (frames s)"
      by (auto simp: covered_def)
    with z have "pc = GReturned" by (rule greg_zero_returned)
    with m fok show ?thesis by auto
  qed
  have "covered (frames s) a \<and> all_done w c (heap s) a" if "a \<in> reach (heap s) head" for a
    using that
  proof induction
    case root
    from ne f0 have "GenerateApplications head GReturned \<in> set (frames s)"
      by (metis length_greater_0_conv nth_mem)
    then have "covered (frames s) head" by (auto simp: covered_def)
    with cov show ?case by blast
  next
    case (child a k)
    with cov have "covered (frames s) k" by blast
    with cov show ?case by blast
  qed
  with in1 show ?thesis by blast
qed

lemma set_Applications_same:
  assumes "i < length (Environments (BusinessOrganization n))"
  shows "set_Applications i (Applications (Environments (BusinessOrganization n) ! i)) n = n"
  using assms by (simp add: set_Applications_def)

lemma frame_run_rerun:
  assumes run: "frame_run w c i s = Some s'" and inv: "rerun_inv H head s"
    and D: "\<forall>a\<in>reach H head. all_done w c H a"
  shows "rerun_inv H head s'"
proof -
  from run obtain f' s1 where i: "i < length (frames s)"
    and fs: "frame_step w c (frames s ! i) s = Some (f', s1)"
    and s': "s' = s1\<lparr>frames := (frames s1)[i := f']\<rparr>"
    by (auto simp: frame_run_def split: if_splits option.splits)
  from inv have h: "heap s = H" and mh: "main_head (mainpc s) = Some head"
    and fok: "\<forall>f\<in>set (frames s). rframe_ok H head f"
    by (simp_all add: rerun_inv_def)
  from fok i have fi: "rframe_ok H head (frames s ! i)" by simp
  obtain p pc pc' where f: "frames s ! i = GenerateApplications p pc"
    and f': "f' = GenerateApplications p pc'"
    and gs: "gen_step w c p pc s = Some (pc', s1)" and p: "p < length (heap s)"
  proof (cases "frames s ! i")
    case Idle
    with fs show ?thesis by simp
  next
    case (BuildOrgTree q qc)
    with fi fs show ?thesis by (auto split: if_splits)
  next
    case (GenerateApplications q qc)
    with fs that show ?thesis by (auto split: if_splits)
  qed
  from fi f have ok: "rpc_ok H head p pc" by simp
  from gs have "pc \<noteq> GReturned" by auto
  with ok have pr: "p \<in> reach H head" by (cases pc) auto
  with D have ad: "all_done w c H p" by simp
  have eff: "heap s1 = H \<and> mainpc s1 = mainpc s \<and> rpc_ok H head p pc' \<and>
             (\<exists>new. frames s1 = frames s @ new \<and> (\<forall>g\<in>set new. rframe_ok H head g))"
    using gs
  proof (cases rule: gen_stepE)
    case (Exit i out err)
    with ok h show ?thesis by (simp add: exit_with_def sent_def)
  next
    case (Fetch j out byteArray)
    from Fetch(2) ad h have "fetched w c (envs_at H p ! j)" by (simp add: all_done_def)
    with Fetch(3) h have "Applications (envs_at H p ! j) = fst (unmarshalApplications w byteArray [])"
      by (simp add: fetched_def)
    with Fetch pr h show ?thesis by (simp add: print_def sent_def)
  next
    case (Kids j)
    with pr h show ?thesis by simp
  next
    case (Assign j apps)
    with ok have j: "j < length (envs_at H p)" and a: "apps = Applications (envs_at H p ! j)"
      by simp_all
    from set_Applications_same [of j "H ! p"] j a
    have "set_Applications j apps (H ! p) = H ! p" by simp
    with Assign h pr show ?thesis by (simp add: modify_def)
  next
    case Done
    with h show ?thesis by (simp add: done_main_def exit_with_def)
  next
    case (Add k ks)
    with ok h show ?thesis by simp
  next
    case (Go k ks)
    with ok have k: "k \<in> set (Children (H ! p))" by simp
    from reach.child [OF pr k] have "k \<in> reach H head" .
    with Go ok h show ?thesis by simp
  qed
  then obtain new where fr: "frames s1 = frames s @ new" and nok: "\<forall>g\<in>set new. rframe_ok H head g"
    by blast
  have upd: "frames s' = (frames s)[i := f'] @ new"
    using i fr by (simp add: s' list_update_append)
  have "rframe_ok H head g" if "g \<in> set (frames s')" for g
  proof -
    from that consider "g \<in> set new" | "g \<in> set ((frames s)[i := f'])" by (auto simp: upd)
    then show ?thesis
    proof cases
      case 1
      with nok show ?thesis by simp
    next
      case 2
      from in_set_update_cases [OF this] fok eff f' show ?thesis by auto
    qed
  qed
  with eff mh show ?thesis by (simp add: rerun_inv_def s')
qed

lemma main_step_rerun:
  assumes st: "main_step w c s = Some s'" and inv: "rerun_inv H head s"
  shows "rerun_inv H head s'"
proof -
  from inv have h: "heap s = H" and mh: "main_head (mainpc s) = Some head"
    and fok: "\<forall>f\<in>set (frames s). rframe_ok H head f"
    by (simp_all add: rerun_inv_def)
  have same: "rerun_inv H head s'"
    if "heap s' = heap s" "frames s' = frames s" "main_head (mainpc s') = Some head"
    using that h fok by (simp add: rerun_inv_def)
  show ?thesis
  proof (cases "mainpc s")
    case (MGenAdd x)
    with st mh show ?thesis by (intro same) (auto simp: main_step_def)
  next
    case (MGenCall x)
    with st mh have s': "s' = s\<lparr>frames := (frames s)[0 := GenerateApplications head (GEnv 0)],
                              mainpc := MGen head\<rparr>"
      by (simp add: main_step_def)
    have "rframe_ok H head g" if "g \<in> set ((frames s)[0 := GenerateApplications head (GEnv 0)])" for g
      using in_set_update_cases [OF that] fok by (auto intro: reach.root)
    with h show ?thesis by (simp add: rerun_inv_def s')
  next
    case (MGen x)
    with st mh show ?thesis by (intro same) (auto simp: main_step_def)
  next
    case (MGenWait x)
    with st mh show ?thesis by (intro same) (auto simp: main_step_def split: if_splits)
  next
    case (MWriteTree x)
    with st mh show ?thesis
      by (intro same) (auto simp: main_step_def exit_with_def split: option.splits sum.splits)
  next
    case (MFlatten x)
    with st mh show ?thesis
      by (intro same)
         (auto simp: main_step_def exit_with_def print_def Let_def split: option.splits sum.splits)
  qed (use mh in auto)
qed

lemma step_rerun:
  assumes "step w c i s = Some s'" and "rerun_inv H head s"
    and "\<forall>a\<in>reach H head. all_done w c H a"
  shows "rerun_inv H head s'"
proof (cases "i = 0 \<and> \<not> in_call s")
  case True
  with assms(1) have "main_step w c s = Some s'" by (simp add: step_def split: if_splits)
  from main_step_rerun [OF this assms(2)] show ?thesis .
next
  case False
  with assms(1) have "frame_run w c i s = Some s'" by (auto simp: step_def split: if_splits)
  from frame_run_rerun [OF this assms(2,3)] show ?thesis .
qed

text \<open>
  C8. The process has run the enrichment to the end (\<^verbatim>\<open>g.Wait()\<close> in \<^verbatim>\<open>main\<close> has
  returned); then every environment of every node below \<open>head\<close> holds the items decoded
  from the inventory's reply for its id. When \<^verbatim>\<open>g.Add(1); generateApplications(head, g);
  g.Wait()\<close> is run once more from that state, against the same inventory, the heap is the
  same in every state of the second run, whatever the schedule: no item list changes, none
  is duplicated.
\<close>

theorem enrichment_idempotent:
  assumes "run w c sched1 init = Some s1" and "mainpc s1 = MWriteTree head"
    and "run w c sched2 (s1\<lparr>mainpc := MGenAdd head\<rparr>) = Some s2"
  shows "heap s2 = heap s1 \<and>
         (\<forall>a\<in>reach (heap s1) head. \<forall>env\<in>set (envs_at (heap s1) a). fetched w c env)"
proof -
  from enriched_all [OF assms(1,2)] have inert: "\<forall>f\<in>set (frames s1). inert f"
    and D: "\<forall>a\<in>reach (heap s1) head. all_done w c (heap s1) a" by simp_all
  have "rframe_ok (heap s1) head f" if "f \<in> set (frames s1)" for f
    using inert that by (cases f) auto
  then have start: "rerun_inv (heap s1) head (s1\<lparr>mainpc := MGenAdd head\<rparr>)"
    by (simp add: rerun_inv_def)
  have "rerun_inv (heap s1) head s2"
    using run_invariant [of w c "rerun_inv (heap s1) head" "s1\<lparr>mainpc := MGenAdd head\<rparr>" sched2 s2]
      step_rerun D start assms(3) by blast
  then have "heap s2 = heap s1" by (simp add: rerun_inv_def)
  with D show ?thesis by (simp add: all_done_def)
qed

lemma ex_twice:
  "Option.bind (run ex_world ex_config ex_sched_enriched init)
     (\<lambda>s1. map_option
        (\<lambda>s2. (mainpc s1, mainpc s2, exited s2,
               map (\<lambda>n. map Applications (Environments (BusinessOrganization n))) (heap s1),
               length (requests s1), length (requests s2)))
        (run ex_world ex_config ex_sched_again (s1\<lparr>mainpc := MGenAdd 0\<rparr>))) =
   Some (MWriteTree 0, MWriteTree 0, None, [[], [[app_x]], []], 4, 5)"
  by code_simp

theorem enrichment_idempotent_witness:
  "\<exists>s1 s2. run ex_world ex_config ex_sched_enriched init = Some s1 \<and> mainpc s1 = MWriteTree 0 \<and>
     run ex_world ex_config ex_sched_again (s1\<lparr>mainpc := MGenAdd 0\<rparr>) = Some s2 \<and>
     mainpc s2 = MWriteTree 0 \<and> length (requests s2) = 5 \<and>
     map (\<lambda>n. map Applications (Environments (BusinessOrganization n))) (heap s1) =
       [[], [[app_x]], []] \<and>
     heap s2 = heap s1"
proof -
  from ex_twice obtain s1 s2 where r1: "run ex_world ex_config ex_sched_enriched init = Some s1"
    and r2: "run ex_world ex_config ex_sched_again (s1\<lparr>mainpc := MGenAdd 0\<rparr>) = Some s2"
    and v: "mainpc s1 = MWriteTree 0" "mainpc s2 = MWriteTree 0" "length (requests s2) = 5"
      "map (\<lambda>n. map Applications (Environments (BusinessOrganization n))) (heap s1) =
       [[], [[app_x]], []]"
    by (auto simp: bind_eq_Some_conv)
  from enrichment_idempotent [OF r1 v(1) r2] have "heap s2 = heap s1" by simp
  with r1 r2 v show ?thesis by (intro exI [of _ s1] exI [of _ s2] conjI)
qed

end
